theory Spec2Isabelle
  imports
    Main
    "HOL-Library.Multiset"
    "HOL-Library.Char_ord"
    "HOL-Library.List_Lexorder"
begin

section \<open>Data model of the fragment loader\<close>

text \<open>
  The loader (\<^verbatim>\<open>modules/graph/loader/arrow_fragment_loader.h\<close>) works on Arrow tables.
  Arrow itself is a library outside the repository, so its data types are taken as
  parameters: \<open>'ty\<close> is the value of an \<^verbatim>\<open>arrow::DataType\<close> (two types are
  \<^verbatim>\<open>Equals\<close> exactly when they are the same value), \<^verbatim>\<open>ToString\<close> is a function
  \<open>'ty \<Rightarrow> string\<close> passed to the functions that call it, and \<open>'v\<close> is the value of a
  cell (\<open>None\<close> is a null cell). Strings are ordered as \<^verbatim>\<open>std::string\<close> orders them:
  lexicographically, byte by byte.
\<close>

record 'ty Field =
  fname :: string
  ftype :: 'ty

type_synonym KeyValueMetadata = "(string \<times> string) list"

record 'ty Schema =
  sfields :: "'ty Field list"
  metadata :: "KeyValueMetadata option"

record ('ty, 'v) Table =
  schema :: "'ty Schema"
  columns :: "'v option list list"
  num_rows :: nat

subsection \<open>FindMostCommonSchema\<close>

text \<open>
  First loop: \<^verbatim>\<open>field_num\<close> is the number of fields of the first schema that is not
  null, and 0 when every schema is null.
\<close>

fun first_field_num :: "'ty Schema option list \<Rightarrow> nat" where
  "first_field_num [] = 0"
| "first_field_num (None # ss) = first_field_num ss"
| "first_field_num (Some s # ss) = length (sfields s)"

text \<open>
  \<^verbatim>\<open>schemas[j]->field(i)\<close> reads a vector by index; out of range the read is undefined
  in C++, which the model makes the value \<open>None\<close>.
\<close>

definition field_at :: "'ty Schema \<Rightarrow> nat \<Rightarrow> 'ty Field option" where
  "field_at s i = (if i < length (sfields s) then Some (sfields s ! i) else None)"

text \<open>Second loop, for one position \<open>i\<close>: null schemas are skipped.\<close>

fun collect_fields :: "nat \<Rightarrow> 'ty Schema option list \<Rightarrow> 'ty Field list option" where
  "collect_fields i [] = Some []"
| "collect_fields i (None # ss) = collect_fields i ss"
| "collect_fields i (Some s # ss) =
     (case field_at s i of
        None \<Rightarrow> None
      | Some f \<Rightarrow> (case collect_fields i ss of None \<Rightarrow> None | Some fs \<Rightarrow> Some (f # fs)))"

text \<open>
  The linear traversal over the sorted fields, from index 1: \<open>prev\<close> is
  \<^verbatim>\<open>fields[i][j - 1]\<close>, the state is \<^verbatim>\<open>(max_count, curr_count, res)\<close>. The counters
  are C++ \<^verbatim>\<open>int\<close>s bounded by the number of workers, itself an \<^verbatim>\<open>int\<close>, so they
  cannot overflow and are natural numbers here.
\<close>

fun count_runs ::
  "'ty Field \<Rightarrow> 'ty Field list \<Rightarrow> nat \<times> nat \<times> 'ty Field \<Rightarrow> nat \<times> nat \<times> 'ty Field" where
  "count_runs prev [] st = st"
| "count_runs prev (f # fs) (max_count, curr_count, res) =
     (if ftype f = ftype prev
      then count_runs f fs (max_count, curr_count + 1, res)
      else if curr_count > max_count
           then count_runs f fs (curr_count, 1, prev)
           else count_runs f fs (max_count, 1, res))"

text \<open>
  One position of the third loop. \<^verbatim>\<open>std::sort\<close> with the comparator
  \<^verbatim>\<open>lhs->type()->ToString() < rhs->type()->ToString()\<close> is the parameter \<open>std_sort\<close>
  applied to that comparator: the standard fixes the result only up to the order of
  equivalent elements. Reading \<^verbatim>\<open>fields[i][0]\<close> of an empty vector is \<open>None\<close>.
\<close>

definition type_less :: "('ty \<Rightarrow> string) \<Rightarrow> 'ty Field \<Rightarrow> 'ty Field \<Rightarrow> bool" where
  "type_less ToString lhs rhs = (ToString (ftype lhs) < ToString (ftype rhs))"

definition most_common_field ::
  "(('ty Field \<Rightarrow> 'ty Field \<Rightarrow> bool) \<Rightarrow> 'ty Field list \<Rightarrow> 'ty Field list) \<Rightarrow>
   ('ty \<Rightarrow> string) \<Rightarrow> 'ty Field list \<Rightarrow> 'ty Field option" where
  "most_common_field std_sort ToString fs =
     (case std_sort (type_less ToString) fs of
        [] \<Rightarrow> None
      | f0 # rest \<Rightarrow>
          (case count_runs f0 rest (1, 1, f0) of
             (max_count, curr_count, res) \<Rightarrow>
               Some (if curr_count > max_count then last (f0 # rest) else res)))"

fun sequence_option :: "'a option list \<Rightarrow> 'a list option" where
  "sequence_option [] = Some []"
| "sequence_option (None # xs) = None"
| "sequence_option (Some x # xs) =
     (case sequence_option xs of None \<Rightarrow> None | Some ys \<Rightarrow> Some (x # ys))"

text \<open>
  The whole function. The final schema is built from the fields alone
  (\<^verbatim>\<open>std::make_shared<arrow::Schema>(most_common_fields)\<close>), so it has no metadata.
\<close>

definition FindMostCommonSchema ::
  "(('ty Field \<Rightarrow> 'ty Field \<Rightarrow> bool) \<Rightarrow> 'ty Field list \<Rightarrow> 'ty Field list) \<Rightarrow>
   ('ty \<Rightarrow> string) \<Rightarrow> 'ty Schema option list \<Rightarrow> 'ty Schema option" where
  "FindMostCommonSchema std_sort ToString schemas =
     (let field_num = first_field_num schemas in
      case sequence_option (map (\<lambda>i. collect_fields i schemas) [0..<field_num]) of
        None \<Rightarrow> None
      | Some fields_by_pos \<Rightarrow>
          (case sequence_option (map (most_common_field std_sort ToString) fields_by_pos) of
             None \<Rightarrow> None
           | Some most_common_fields \<Rightarrow>
               Some \<lparr>sfields = most_common_fields, metadata = None\<rparr>))"

text \<open>
  What \<^verbatim>\<open>std::sort\<close> guarantees for a comparator: the result is a permutation of the
  input and no later element is less than an earlier one.
\<close>

definition std_sort_contract ::
  "('a \<Rightarrow> 'a \<Rightarrow> bool) \<Rightarrow> (('a \<Rightarrow> 'a \<Rightarrow> bool) \<Rightarrow> 'a list \<Rightarrow> 'a list) \<Rightarrow> bool" where
  "std_sort_contract cmp std_sort =
     (\<forall>xs. mset (std_sort cmp xs) = mset xs \<and>
           sorted_wrt (\<lambda>a b. \<not> cmp b a) (std_sort cmp xs))"

text \<open>An instance of the contract, used to run the function on concrete schemas.\<close>

definition sort_by_type ::
  "('ty \<Rightarrow> string) \<Rightarrow> ('ty Field \<Rightarrow> 'ty Field \<Rightarrow> bool) \<Rightarrow> 'ty Field list \<Rightarrow> 'ty Field list" where
  "sort_by_type ToString cmp fs = sort_key (\<lambda>f. ToString (ftype f)) fs"

text \<open>The fields the non-null schemas contribute at position \<open>i\<close>, in worker order.\<close>

definition contributed :: "nat \<Rightarrow> 'ty Schema option list \<Rightarrow> 'ty Field list" where
  "contributed i schemas = map (\<lambda>s. sfields s ! i) (List.map_filter (\<lambda>x. x) schemas)"

text \<open>
  The number of field positions, in the words of the claim: null entries are skipped, and
  the first schema that is left gives the positions.
\<close>

definition field_positions :: "'ty Schema option list \<Rightarrow> nat" where
  "field_positions schemas =
     (case List.map_filter (\<lambda>x. x) schemas of [] \<Rightarrow> 0 | s # ss \<Rightarrow> length (sfields s))"

text \<open>
  \<open>r\<close> is the modal type of \<open>tys\<close>: it occurs, no type occurs more often, and among the
  types that occur as often it is first in the order of the type strings.
\<close>

definition modal_type :: "('ty \<Rightarrow> string) \<Rightarrow> 'ty list \<Rightarrow> 'ty \<Rightarrow> bool" where
  "modal_type ToString tys r =
     (r \<in> set tys \<and>
      (\<forall>t \<in> set tys. count_list tys t \<le> count_list tys r) \<and>
      (\<forall>t \<in> set tys. count_list tys t = count_list tys r \<longrightarrow> ToString r \<le> ToString t))"

subsection \<open>Invariant of the linear traversal\<close>

definition tcount :: "'ty Field list \<Rightarrow> 'ty \<Rightarrow> nat" where
  "tcount fs t = count_list (map ftype fs) t"

definition others_le :: "'ty Field list \<Rightarrow> nat \<Rightarrow> bool" where
  "others_le Q mx = (\<forall>q \<in> set Q. ftype q \<noteq> ftype (last Q) \<longrightarrow> tcount Q (ftype q) \<le> mx)"

definition first_run :: "'ty Field list \<Rightarrow> nat \<Rightarrow> bool" where
  "first_run Q mx = ((\<forall>q \<in> set Q. ftype q = ftype (last Q)) \<and> mx = 1)"

definition best_so_far :: "('ty \<Rightarrow> string) \<Rightarrow> 'ty Field list \<Rightarrow> nat \<Rightarrow> 'ty Field \<Rightarrow> bool" where
  "best_so_far ts Q mx res =
     (ftype res \<noteq> ftype (last Q) \<and> tcount Q (ftype res) = mx \<and>
      (\<forall>q \<in> set Q. ftype q \<noteq> ftype (last Q) \<and> tcount Q (ftype q) = mx
           \<longrightarrow> ts (ftype res) \<le> ts (ftype q)))"

text \<open>
  After the fields \<open>Q\<close> have been read: \<open>cur\<close> counts the run that \<open>Q\<close> ends with, every
  closed run has at most \<open>mx\<close> fields, and \<open>res\<close> is a field of the first closed run of
  \<open>mx\<close> fields (or of the first run, while no run has been closed and \<open>mx\<close> is still 1).
\<close>

definition scan_inv ::
  "('ty \<Rightarrow> string) \<Rightarrow> 'ty Field list \<Rightarrow> nat \<times> nat \<times> 'ty Field \<Rightarrow> bool" where
  "scan_inv ts Q st =
     (case st of (mx, cur, res) \<Rightarrow>
        cur = tcount Q (ftype (last Q)) \<and> 1 \<le> mx \<and> res \<in> set Q \<and>
        others_le Q mx \<and> (first_run Q mx \<or> best_so_far ts Q mx res))"

text \<open>Concrete schemas on which the function is run: the types are their own strings.\<close>

definition ex_schemas :: "string Schema option list" where
  "ex_schemas =
     [Some \<lparr>sfields = [\<lparr>fname = ''id'', ftype = ''int64''\<rparr>, \<lparr>fname = ''w'', ftype = ''int64''\<rparr>], metadata = None\<rparr>,
      None,
      Some \<lparr>sfields = [\<lparr>fname = ''id'', ftype = ''int64''\<rparr>, \<lparr>fname = ''w'', ftype = ''double''\<rparr>], metadata = None\<rparr>,
      Some \<lparr>sfields = [\<lparr>fname = ''id'', ftype = ''int64''\<rparr>, \<lparr>fname = ''w'', ftype = ''double''\<rparr>], metadata = None\<rparr>]"

text \<open>
  Schemas of three workers: the first has no table, the third has read a shard without the
  column \<^verbatim>\<open>w\<close>.
\<close>

definition ex_short_schemas :: "string Schema option list" where
  "ex_short_schemas =
     [None,
      Some \<lparr>sfields = [\<lparr>fname = ''id'', ftype = ''int64''\<rparr>, \<lparr>fname = ''w'', ftype = ''double''\<rparr>], metadata = None\<rparr>,
      Some \<lparr>sfields = [\<lparr>fname = ''id'', ftype = ''int64''\<rparr>], metadata = None\<rparr>]"

definition ex_uniform :: "string Schema" where
  "ex_uniform = \<lparr>sfields = [\<lparr>fname = ''id'', ftype = ''int64''\<rparr>, \<lparr>fname = ''w'', ftype = ''double''\<rparr>],
            metadata = Some [(''k'', ''v'')]\<rparr>"

section \<open>SyncSchema\<close>

text \<open>
  \<^verbatim>\<open>grape::CommSpec\<close> belongs to a library outside the repository: the loader reads
  the number of workers, the rank of this worker, the number of fragments, the fragment
  of this worker, and the translation \<^verbatim>\<open>FragToWorker\<close> from a fragment to the rank of
  the worker that serves it.
\<close>

record CommSpec =
  worker_num :: nat
  worker_id :: nat
  fnum :: nat
  fid :: nat
  FragToWorker :: "nat \<Rightarrow> nat"

text \<open>
  How a call of the loader ends. \<open>OK\<close> and \<open>GSError\<close> are the two values of a
  \<^verbatim>\<open>boost::leaf::result\<close>: success, and an error with its code and message
  (\<^verbatim>\<open>RETURN_GS_ERROR\<close>; \<^verbatim>\<open>VY_OK_OR_RAISE\<close> raises \<^verbatim>\<open>kVineyardError\<close>). \<open>Aborted\<close> is
  a failed check (\<^verbatim>\<open>CHECK_ARROW_ERROR\<close>, \<^verbatim>\<open>CHECK_NE\<close>, \<^verbatim>\<open>CHECK_LT\<close>, an uncaught
  exception, a read out of range): the call does not return. \<open>Unmatched\<close> is a worker
  waiting in a collective that the coordinator never enters: the call does not return
  either.
\<close>

datatype ErrorCode = kIOError | kVineyardError

datatype status = OK | GSError ErrorCode string | Aborted | Unmatched

datatype mpi_call = MPI_Gather | MPI_Gatherv | MPI_Bcast

text \<open>
  The operations of Arrow, and of the table utilities of the repository, that
  \<^verbatim>\<open>SyncSchema\<close> calls. A serialized schema is a string of bytes; reading one back may
  fail, and so may building or promoting a table (the message of the failure is kept).
\<close>

record ('ty, 'v) table_ops =
  op_ToString :: "'ty \<Rightarrow> string"
  op_sort :: "('ty Field \<Rightarrow> 'ty Field \<Rightarrow> bool) \<Rightarrow> 'ty Field list \<Rightarrow> 'ty Field list"
  op_SerializeSchema :: "'ty Schema \<Rightarrow> string"
  op_DeserializeSchema :: "string \<Rightarrow> 'ty Schema option"
  op_Build :: "'ty Schema \<Rightarrow> string + ('ty, 'v) Table"
  op_PromoteTableToSchema :: "('ty, 'v) Table \<Rightarrow> 'ty Schema \<Rightarrow> string + ('ty, 'v) Table"

record ('ty, 'v) sync_result =
  sync_status :: status
  sync_table :: "('ty, 'v) Table option"
  sync_calls :: "mpi_call list"

text \<open>
  Lines 199 to 203: the bytes a worker contributes, none when its table is null, and
  their number.
\<close>

definition local_buffer :: "('ty, 'v) table_ops \<Rightarrow> ('ty, 'v) Table option \<Rightarrow> string" where
  "local_buffer ops table =
     (case table of None \<Rightarrow> [] | Some t \<Rightarrow> op_SerializeSchema ops (schema t))"

definition local_size :: "('ty, 'v) table_ops \<Rightarrow> ('ty, 'v) Table option \<Rightarrow> int" where
  "local_size ops table = int (length (local_buffer ops table))"

text \<open>
  Lines 238 to 245: a schema is read back from every buffer that is not empty; a buffer
  that cannot be read fails the check of \<^verbatim>\<open>DeserializeSchema\<close>.
\<close>

fun deserialize_all ::
  "('ty, 'v) table_ops \<Rightarrow> string list \<Rightarrow> 'ty Schema option list option" where
  "deserialize_all ops [] = Some []"
| "deserialize_all ops (b # bs) =
     (if int (length b) = 0
      then (case deserialize_all ops bs of None \<Rightarrow> None | Some ss \<Rightarrow> Some (None # ss))
      else (case op_DeserializeSchema ops b of
              None \<Rightarrow> None
            | Some s \<Rightarrow>
                (case deserialize_all ops bs of None \<Rightarrow> None | Some ss \<Rightarrow> Some (Some s # ss))))"

text \<open>
  Lines 204 to 247, the coordinator: \<open>tables\<close> are the tables of all workers in rank
  order, so that \<^verbatim>\<open>MPI_Gather\<close> delivers their sizes and \<^verbatim>\<open>MPI_Gatherv\<close> their bytes.
  The result is the final schema, or the status with which the coordinator stops, and the
  collectives it has called by then. \<^verbatim>\<open>total_len\<close> is the sum of the sizes (a C++
  \<^verbatim>\<open>int\<close>, which more than 2 GiB of serialized schemas would overflow).
\<close>

definition coordinator_schema ::
  "('ty, 'v) table_ops \<Rightarrow> ('ty, 'v) Table option list \<Rightarrow> (status \<times> mpi_call list) + 'ty Schema" where
  "coordinator_schema ops tables =
     (let recvcounts = map (local_size ops) tables;
          total_len = sum_list recvcounts
      in if total_len = 0
         then Inl (GSError kIOError ''All schema is empty'', [MPI_Gather])
         else (case deserialize_all ops (map (local_buffer ops) tables) of
                 None \<Rightarrow> Inl (Aborted, [MPI_Gather, MPI_Gatherv])
               | Some schemas \<Rightarrow>
                   (case FindMostCommonSchema (op_sort ops) (op_ToString ops) schemas of
                      None \<Rightarrow> Inl (Aborted, [MPI_Gather, MPI_Gatherv])
                    | Some final_schema \<Rightarrow> Inr final_schema)))"

text \<open>
  Lines 281 to 287: a worker without a table builds an empty one with the final schema
  (\<^verbatim>\<open>VY_OK_OR_RAISE\<close>), a worker with a table promotes it
  (\<^verbatim>\<open>CHECK_ARROW_ERROR_AND_ASSIGN\<close>: a failure is fatal).
\<close>

definition reconcile ::
  "('ty, 'v) table_ops \<Rightarrow> ('ty, 'v) Table option \<Rightarrow> 'ty Schema \<Rightarrow> mpi_call list \<Rightarrow>
   ('ty, 'v) sync_result" where
  "reconcile ops table final_schema calls =
     (case table of
        None \<Rightarrow>
          (case op_Build ops final_schema of
             Inl msg \<Rightarrow> \<lparr>sync_status = GSError kVineyardError msg, sync_table = None,
                        sync_calls = calls\<rparr>
           | Inr t \<Rightarrow> \<lparr>sync_status = OK, sync_table = Some t, sync_calls = calls\<rparr>)
      | Some t \<Rightarrow>
          (case op_PromoteTableToSchema ops t final_schema of
             Inl msg \<Rightarrow> \<lparr>sync_status = Aborted, sync_table = Some t, sync_calls = calls\<rparr>
           | Inr t' \<Rightarrow> \<lparr>sync_status = OK, sync_table = Some t', sync_calls = calls\<rparr>))"

text \<open>
  \<^verbatim>\<open>SyncSchema\<close> as the worker \<open>worker_id comm_spec\<close> runs it; its own table is
  \<open>tables ! worker_id comm_spec\<close> (the list has one table for each of the
  \<open>worker_num comm_spec\<close> workers). The result has the status of the call, the table of
  the worker after it, and the collectives the worker has entered. A worker other than the
  coordinator receives the final schema from the broadcasts of the coordinator; when the
  coordinator has stopped before them, the broadcast of the worker is never matched.
\<close>

definition SyncSchema ::
  "('ty, 'v) table_ops \<Rightarrow> CommSpec \<Rightarrow> ('ty, 'v) Table option list \<Rightarrow> ('ty, 'v) sync_result" where
  "SyncSchema ops comm_spec tables =
     (let table = tables ! worker_id comm_spec in
      if worker_num comm_spec = 1
      then \<lparr>sync_status = OK, sync_table = table, sync_calls = []\<rparr>
      else if worker_id comm_spec = 0
      then (case coordinator_schema ops tables of
              Inl (st, calls) \<Rightarrow> \<lparr>sync_status = st, sync_table = table, sync_calls = calls\<rparr>
            | Inr final_schema \<Rightarrow>
                reconcile ops table final_schema [MPI_Gather, MPI_Gatherv, MPI_Bcast, MPI_Bcast])
      else (case coordinator_schema ops tables of
              Inl (st, calls) \<Rightarrow>
                \<lparr>sync_status = Unmatched, sync_table = table,
                 sync_calls = [MPI_Gather, MPI_Gatherv, MPI_Bcast]\<rparr>
            | Inr sent \<Rightarrow>
                (case op_DeserializeSchema ops (op_SerializeSchema ops sent) of
                   None \<Rightarrow> \<lparr>sync_status = Aborted, sync_table = table,
                             sync_calls = [MPI_Gather, MPI_Gatherv, MPI_Bcast, MPI_Bcast]\<rparr>
                 | Some final_schema \<Rightarrow>
                     reconcile ops table final_schema
                       [MPI_Gather, MPI_Gatherv, MPI_Bcast, MPI_Bcast])))"

section \<open>Re-indexing the shuffled tables by label\<close>

text \<open>
  \<^verbatim>\<open>KeyValueMetadata::FindKey\<close>: the index of the first pair with the key, or \<open>-1\<close>.
\<close>

fun FindKey :: "KeyValueMetadata \<Rightarrow> string \<Rightarrow> int" where
  "FindKey [] key = - 1"
| "FindKey ((k, v) # kvs) key =
     (if k = key then 0
      else (let i = FindKey kvs key in if i = - 1 then - 1 else i + 1))"

text \<open>
  \<^verbatim>\<open>std::stoi\<close> in base 10: white space is skipped, a sign may follow, then the longest
  run of digits is read and what comes after it is ignored. With no digit the function
  throws \<^verbatim>\<open>std::invalid_argument\<close>, with a value outside the range of \<^verbatim>\<open>int\<close> it
  throws \<^verbatim>\<open>std::out_of_range\<close>: both are \<open>None\<close>.
\<close>

definition is_space :: "char \<Rightarrow> bool" where
  "is_space c = (c \<in> {CHR '' '', CHR 0x09, CHR 0x0A, CHR 0x0B, CHR 0x0C, CHR 0x0D})"

definition is_digit :: "char \<Rightarrow> bool" where
  "is_digit c = (CHR ''0'' \<le> c \<and> c \<le> CHR ''9'')"

definition digit_value :: "char \<Rightarrow> nat" where
  "digit_value c = of_char c - of_char CHR ''0''"

definition decimal_value :: "string \<Rightarrow> nat" where
  "decimal_value ds = foldl (\<lambda>acc c. 10 * acc + digit_value c) 0 ds"

definition stoi :: "string \<Rightarrow> int option" where
  "stoi str =
     (let s1 = dropWhile is_space str;
          negative = (s1 \<noteq> [] \<and> hd s1 = CHR ''-'');
          s2 = (if s1 \<noteq> [] \<and> (hd s1 = CHR ''-'' \<or> hd s1 = CHR ''+'') then tl s1 else s1);
          ds = takeWhile is_digit s2;
          v = (if negative then - int (decimal_value ds) else int (decimal_value ds))
      in if ds = [] then None
         else if v < - (2 ^ 31) \<or> 2 ^ 31 - 1 < v then None
         else Some v)"

text \<open>
  The label a table declares (lines 367 to 370): the metadata of its schema are searched
  for the key \<^verbatim>\<open>label_index\<close> and the value is parsed. A schema without metadata (a null
  pointer is dereferenced), a missing key (\<^verbatim>\<open>CHECK_NE\<close>) and a value that is not a
  number stop the loader: \<open>None\<close>.
\<close>

definition label_index_of :: "('ty, 'v) Table \<Rightarrow> int option" where
  "label_index_of table =
     (case metadata (schema table) of
        None \<Rightarrow> None
      | Some meta \<Rightarrow>
          (let label_index_field = FindKey meta ''label_index''
           in if label_index_field = - 1 then None
              else stoi (snd (meta ! nat label_index_field))))"

text \<open>
  The loop of lines 366 to 373 over the received tables, in their order of arrival.
  \<^verbatim>\<open>CHECK_LT(label_index, rearranged_v_tables.size())\<close> compares an \<^verbatim>\<open>int\<close> with a
  \<^verbatim>\<open>size_t\<close>: a negative index is converted to a large unsigned number and fails the
  check as an index that is too large does.
\<close>

fun place_tables ::
  "('ty, 'v) Table list \<Rightarrow> ('ty, 'v) Table option list \<Rightarrow> ('ty, 'v) Table option list option" where
  "place_tables [] rearranged = Some rearranged"
| "place_tables (table # tables) rearranged =
     (case label_index_of table of
        None \<Rightarrow> None
      | Some label_index \<Rightarrow>
          (if 0 \<le> label_index \<and> nat label_index < length rearranged
           then place_tables tables (rearranged[nat label_index := Some table])
           else None))"

text \<open>
  Lines 364 to 374 (and 376 to 386 for the edge tables, which are the same code): the
  new list has the size of the old one and starts with null entries.
\<close>

definition rearrange_tables :: "('ty, 'v) Table list \<Rightarrow> ('ty, 'v) Table option list option" where
  "rearrange_tables local_tables = place_tables local_tables (replicate (length local_tables) None)"

text \<open>
  The label index a table carries, read from the schema metadata without the loader: the
  value of the key \<^verbatim>\<open>label_index\<close>, when the schema has metadata with this key.
\<close>

definition label_index_value :: "('ty, 'v) Table \<Rightarrow> string option" where
  "label_index_value table =
     (case metadata (schema table) of None \<Rightarrow> None | Some meta \<Rightarrow> map_of meta ''label_index'')"

text \<open>
  \<^verbatim>\<open>std::to_string\<close> of a number that is not negative, its decimal digits with no
  leading zero: \<^verbatim>\<open>loadVertexTables\<close> and \<^verbatim>\<open>loadEdgeTables\<close> write the label index of a
  table with it (lines 524 and 566).
\<close>

definition digit_char :: "nat \<Rightarrow> char" where
  "digit_char d = char_of (of_char CHR ''0'' + d)"

fun to_string :: "nat \<Rightarrow> string" where
  "to_string n = (if n < 10 then [digit_char n] else to_string (n div 10) @ [digit_char (n mod 10)])"

declare to_string.simps [simp del]

section \<open>constructFragmentGroup\<close>

text \<open>
  Object ids and instance ids are 64-bit numbers that the function only copies, so they
  are natural numbers here. \<^verbatim>\<open>ArrowFragmentGroupBuilder\<close> is declared in
  \<^verbatim>\<open>graph/fragment/arrow_fragment_group.h\<close>, which is not among the sources: the builder
  is the record of what the function sets, and \<^verbatim>\<open>AddFragmentObject\<close> adds one entry
  \<open>(fragment id, object id, instance id)\<close> to it.
\<close>

type_synonym ObjectID = nat

record ArrowFragmentGroupBuilder =
  total_frag_num :: nat
  vertex_label_num :: nat
  edge_label_num :: nat
  fragment_objects :: "(nat \<times> ObjectID \<times> nat) list"

definition AddFragmentObject ::
  "nat \<Rightarrow> ObjectID \<Rightarrow> nat \<Rightarrow> ArrowFragmentGroupBuilder \<Rightarrow> ArrowFragmentGroupBuilder" where
  "AddFragmentObject frag object_id instance_id builder =
     builder\<lparr>fragment_objects := fragment_objects builder @ [(frag, object_id, instance_id)]\<rparr>"

text \<open>
  The loop of lines 469 to 473 from fragment \<open>i\<close> on. The two gathered vectors have one
  entry for each worker; \<^verbatim>\<open>gathered_object_ids[comm_spec.FragToWorker(i)]\<close> out of range
  is \<open>None\<close>.
\<close>

function add_fragments ::
  "CommSpec \<Rightarrow> ObjectID list \<Rightarrow> nat list \<Rightarrow> nat \<Rightarrow> ArrowFragmentGroupBuilder \<Rightarrow>
   ArrowFragmentGroupBuilder option" where
  "add_fragments comm_spec gathered_object_ids gathered_instance_ids i builder =
     (if i < fnum comm_spec
      then (if FragToWorker comm_spec i < length gathered_object_ids \<and>
               FragToWorker comm_spec i < length gathered_instance_ids
            then add_fragments comm_spec gathered_object_ids gathered_instance_ids (i + 1)
                   (AddFragmentObject i (gathered_object_ids ! FragToWorker comm_spec i)
                      (gathered_instance_ids ! FragToWorker comm_spec i) builder)
            else None)
      else Some builder)"
  by pat_completeness auto
termination
  by (relation "measure (\<lambda>(comm_spec, oids, iids, i, builder). fnum comm_spec - i)") auto

declare add_fragments.simps [simp del]

text \<open>
  The object store as the coordinator uses it: \<^verbatim>\<open>builder.Seal(client)\<close> gives the
  sealed group its object id, \<^verbatim>\<open>client.Persist\<close> may fail with a message.
\<close>

record Client =
  Seal :: "ArrowFragmentGroupBuilder \<Rightarrow> ObjectID"
  Persist :: "ObjectID \<Rightarrow> string option"

record group_result =
  group_status :: status
  group_object_id :: "ObjectID option"
  group_object :: "ArrowFragmentGroupBuilder option"
  group_calls :: "mpi_call list"

text \<open>
  Lines 452 to 481, the coordinator: \<open>frag_ids\<close> and \<open>instance_ids\<close> are the fragment
  object id and the instance id of every worker in rank order, which the two
  \<^verbatim>\<open>MPI_Gather\<close> calls deliver. The result has the group that was sealed, when one was.
\<close>

definition coordinator_group ::
  "Client \<Rightarrow> CommSpec \<Rightarrow> ObjectID list \<Rightarrow> nat list \<Rightarrow> nat \<Rightarrow> nat \<Rightarrow> group_result" where
  "coordinator_group client comm_spec frag_ids instance_ids v_label_num e_label_num =
     (let builder = \<lparr>total_frag_num = fnum comm_spec, vertex_label_num = v_label_num,
                     edge_label_num = e_label_num, fragment_objects = []\<rparr>
      in case add_fragments comm_spec frag_ids instance_ids 0 builder of
           None \<Rightarrow> \<lparr>group_status = Aborted, group_object_id = None, group_object = None,
                     group_calls = [MPI_Gather, MPI_Gather]\<rparr>
         | Some grp \<Rightarrow>
             (case Persist client (Seal client grp) of
                Some msg \<Rightarrow> \<lparr>group_status = GSError kVineyardError msg, group_object_id = None,
                             group_object = Some grp, group_calls = [MPI_Gather, MPI_Gather]\<rparr>
              | None \<Rightarrow> \<lparr>group_status = OK, group_object_id = Some (Seal client grp),
                          group_object = Some grp,
                          group_calls = [MPI_Gather, MPI_Gather, MPI_Bcast]\<rparr>))"

text \<open>
  \<^verbatim>\<open>constructFragmentGroup\<close> as the worker \<open>worker_id comm_spec\<close> runs it; \<open>client\<close> is
  the client of the coordinator. A worker other than the coordinator (lines 483 to 491)
  returns the id that the coordinator broadcasts, and waits in a broadcast that is never
  matched when the coordinator stops before it.
\<close>

definition constructFragmentGroup ::
  "Client \<Rightarrow> CommSpec \<Rightarrow> ObjectID list \<Rightarrow> nat list \<Rightarrow> nat \<Rightarrow> nat \<Rightarrow> group_result" where
  "constructFragmentGroup client comm_spec frag_ids instance_ids v_label_num e_label_num =
     (let at_coordinator = coordinator_group client comm_spec frag_ids instance_ids
                             v_label_num e_label_num
      in if worker_id comm_spec = 0 then at_coordinator
         else (case group_object_id at_coordinator of
                 None \<Rightarrow> \<lparr>group_status = Unmatched, group_object_id = None, group_object = None,
                           group_calls = [MPI_Gather, MPI_Gather, MPI_Bcast]\<rparr>
               | Some group_id \<Rightarrow>
                   \<lparr>group_status = OK, group_object_id = Some group_id, group_object = None,
                    group_calls = [MPI_Gather, MPI_Gather, MPI_Bcast]\<rparr>))"

text \<open>
  The entries the group is to have: for every fragment \<open>i\<close> below the number of fragments,
  the object id and the instance id of the worker \<open>FragToWorker comm_spec i\<close>.
\<close>

definition group_entries :: "CommSpec \<Rightarrow> ObjectID list \<Rightarrow> nat list \<Rightarrow> (nat \<times> ObjectID \<times> nat) list" where
  "group_entries comm_spec frag_ids instance_ids =
     map (\<lambda>i. (i, frag_ids ! FragToWorker comm_spec i, instance_ids ! FragToWorker comm_spec i))
       [0..<fnum comm_spec]"

section \<open>swapColumn\<close>

text \<open>
  \<^verbatim>\<open>arrow::Status\<close> as \<^verbatim>\<open>swapColumn\<close> returns it, with \<open>Status_Aborted\<close> for a failed
  \<^verbatim>\<open>CHECK_ARROW_ERROR\<close> and for a read out of range.
\<close>

datatype arrow_Status = Status_OK | Status_Invalid string | Status_Aborted

text \<open>
  \<^verbatim>\<open>Table::RemoveColumn\<close> and \<^verbatim>\<open>Table::AddColumn\<close> of Arrow: an index out of range, and
  a column whose length is not the number of rows, are errors.
\<close>

definition RemoveColumn :: "('ty, 'v) Table \<Rightarrow> int \<Rightarrow> string + ('ty, 'v) Table" where
  "RemoveColumn t i =
     (if 0 \<le> i \<and> nat i < length (sfields (schema t))
      then Inr (t\<lparr>schema := (schema t)\<lparr>sfields := take (nat i) (sfields (schema t)) @
                                                   drop (nat i + 1) (sfields (schema t))\<rparr>,
                 columns := take (nat i) (columns t) @ drop (nat i + 1) (columns t)\<rparr>)
      else Inl ''Invalid column index'')"

definition AddColumn ::
  "('ty, 'v) Table \<Rightarrow> int \<Rightarrow> 'ty Field \<Rightarrow> 'v option list \<Rightarrow> string + ('ty, 'v) Table" where
  "AddColumn t i field_def col =
     (if 0 \<le> i \<and> nat i \<le> length (sfields (schema t)) \<and> length col = num_rows t
      then Inr (t\<lparr>schema := (schema t)\<lparr>sfields := take (nat i) (sfields (schema t)) @ [field_def] @
                                                   drop (nat i) (sfields (schema t))\<rparr>,
                 columns := take (nat i) (columns t) @ [col] @ drop (nat i) (columns t)\<rparr>)
      else Inl ''Invalid column index or length'')"

text \<open>
  \<^verbatim>\<open>swapColumn\<close>: \<open>out\<close> is the table that the pointer of the caller holds before the
  call (a shared pointer, which may be null), and the second component of the result is
  the table it holds after the call. With equal indices the function assigns to its own
  copy of the pointer (\<^verbatim>\<open>out = &in\<close>), which the caller never sees.
\<close>

definition swapColumn ::
  "('ty, 'v) Table \<Rightarrow> int \<Rightarrow> int \<Rightarrow> ('ty, 'v) Table option \<Rightarrow>
   arrow_Status \<times> ('ty, 'v) Table option" where
  "swapColumn in_table lhs_index rhs_index out =
     (if lhs_index = rhs_index then (Status_OK, out)
      else if lhs_index > rhs_index
      then (Status_Invalid ''lhs index must smaller than rhs index.'', out)
      else if \<not> (0 \<le> rhs_index \<and> nat rhs_index < length (sfields (schema in_table)) \<and>
                  nat rhs_index < length (columns in_table))
      then (Status_Aborted, out)
      else (let field_def = sfields (schema in_table) ! nat rhs_index;
                col = columns in_table ! nat rhs_index
            in case RemoveColumn in_table rhs_index of
                 Inl msg \<Rightarrow> (Status_Aborted, out)
               | Inr removed \<Rightarrow>
                   (case AddColumn removed lhs_index field_def col of
                      Inl msg \<Rightarrow> (Status_Aborted, out)
                    | Inr added \<Rightarrow> (Status_OK, Some added))))"

section \<open>Collaborators of SyncSchema that are not among the sources\<close>

text \<open>
  Modelled from the spec: \<^verbatim>\<open>EmptyTableBuilder::Build\<close>, of the table utilities of the
  repository (\<^verbatim>\<open>basic/ds/arrow_utils.h\<close>), which are not among the sources. Section 4.2,
  step 5: a worker that had no table "builds an empty table with exactly that schema".
  The table has one column without cells for every field.
\<close>

definition EmptyTableBuilder_Build :: "'ty Schema \<Rightarrow> string + ('ty, 'v) Table" where
  "EmptyTableBuilder_Build s =
     Inr \<lparr>schema = s, columns = replicate (length (sfields s)) [], num_rows = 0\<rparr>"

text \<open>
  Modelled from the spec: \<^verbatim>\<open>PromoteTableToSchema\<close>, which the loader calls and the
  sources do not define. Sections 4.2 (step 5) and 6: promotion "adds missing columns as
  null, verifies/coerces types", it "must never drop data present in its own columns
  outside the agreed field set silently", and a disagreement of types that cannot be
  reconciled is an error. The spec does not say which types can be upcast to which: that is
  the parameter \<open>upcast\<close>, which gives the conversion of a value when there is one. The
  conversion is applied to the cells that have a value; a null cell stays null.

  The columns of the table with a given name:
\<close>

definition column_indices :: "('ty, 'v) Table \<Rightarrow> string \<Rightarrow> nat list" where
  "column_indices t n =
     filter (\<lambda>k. fname (sfields (schema t) ! k) = n) [0..<length (sfields (schema t))]"

text \<open>
  The column of the promoted table for one field of the target schema. Two columns of the
  table with the name of the field cannot both be kept, so they are an error.
\<close>

definition promote_field ::
  "('ty \<Rightarrow> 'ty \<Rightarrow> ('v \<Rightarrow> 'v) option) \<Rightarrow> ('ty, 'v) Table \<Rightarrow> 'ty Field \<Rightarrow>
   string + 'v option list" where
  "promote_field upcast t f =
     (case column_indices t (fname f) of
        [] \<Rightarrow> Inr (replicate (num_rows t) None)
      | [k] \<Rightarrow>
          (if ftype (sfields (schema t) ! k) = ftype f then Inr (columns t ! k)
           else (case upcast (ftype (sfields (schema t) ! k)) (ftype f) of
                   None \<Rightarrow> Inl ''incompatible types''
                 | Some conv \<Rightarrow> Inr (map (map_option conv) (columns t ! k))))
      | k # k' # ks \<Rightarrow> Inl ''duplicate fields'')"

fun sequence_sum :: "('e + 'a) list \<Rightarrow> 'e + 'a list" where
  "sequence_sum [] = Inr []"
| "sequence_sum (Inl e # xs) = Inl e"
| "sequence_sum (Inr x # xs) =
     (case sequence_sum xs of Inl e \<Rightarrow> Inl e | Inr ys \<Rightarrow> Inr (x # ys))"

definition PromoteTableToSchema ::
  "('ty \<Rightarrow> 'ty \<Rightarrow> ('v \<Rightarrow> 'v) option) \<Rightarrow> ('ty, 'v) Table \<Rightarrow> 'ty Schema \<Rightarrow>
   string + ('ty, 'v) Table" where
  "PromoteTableToSchema upcast t s =
     (if \<exists>f \<in> set (sfields (schema t)). fname f \<notin> fname ` set (sfields s)
      then Inl ''field did not exist in the new schema''
      else (case sequence_sum (map (promote_field upcast t) (sfields s)) of
              Inl msg \<Rightarrow> Inl msg
            | Inr cols \<Rightarrow> Inr \<lparr>schema = s, columns = cols, num_rows = num_rows t\<rparr>))"

text \<open>
  Section 4.2 wants every table coerced to the final schema "without data loss for populated
  columns": an upcast loses nothing when no two values are converted to the same value.
\<close>

definition lossless :: "('ty \<Rightarrow> 'ty \<Rightarrow> ('v \<Rightarrow> 'v) option) \<Rightarrow> bool" where
  "lossless upcast = (\<forall>a b conv. upcast a b = Some conv \<longrightarrow> inj conv)"

text \<open>
  What the claim asks of a promoted table \<open>t'\<close>: it has the target schema and the rows of
  \<open>t\<close>, a field that \<open>t\<close> does not have is a column of nulls, and every column of \<open>t\<close> is a
  column of \<open>t'\<close> under its name, with its cells as they were, or with the values of its
  cells converted by a conversion that is injective (so that the cells of \<open>t\<close> can be read
  back) and its null cells null.
\<close>

definition promoted ::
  "('ty \<Rightarrow> 'ty \<Rightarrow> ('v \<Rightarrow> 'v) option) \<Rightarrow> ('ty, 'v) Table \<Rightarrow> 'ty Schema \<Rightarrow>
   ('ty, 'v) Table \<Rightarrow> bool" where
  "promoted upcast t s t' =
     (schema t' = s \<and> num_rows t' = num_rows t \<and> length (columns t') = length (sfields s) \<and>
      (\<forall>j < length (sfields s).
          column_indices t (fname (sfields s ! j)) = [] \<longrightarrow>
          columns t' ! j = replicate (num_rows t) None) \<and>
      (\<forall>k < length (sfields (schema t)).
          \<exists>j < length (sfields s).
            fname (sfields s ! j) = fname (sfields (schema t) ! k) \<and>
            (columns t' ! j = columns t ! k \<or>
             (\<exists>conv. upcast (ftype (sfields (schema t) ! k)) (ftype (sfields s ! j)) = Some conv \<and>
                     inj conv \<and>
                     columns t' ! j = map (map_option conv) (columns t ! k)))))"

section \<open>Partitioner and shuffle\<close>

text \<open>
  Modelled from the spec: \<^verbatim>\<open>HashPartitioner\<close> (\<^verbatim>\<open>graph/utils/partitioner.h\<close> is not
  among the sources). Section 4.1: \<^verbatim>\<open>Init(fragment_count)\<close> prepares the state and
  \<^verbatim>\<open>GetPartitionId(oid)\<close> is \<^verbatim>\<open>stable_hash(oid) mod fragment_count\<close>, a function of the id
  and of that state alone. The hash is the parameter \<open>stable_hash\<close>; the remainder of a
  division by zero fragments is no value.
\<close>

record HashPartitioner =
  fragment_count :: nat

definition Init :: "nat \<Rightarrow> HashPartitioner" where
  "Init n = \<lparr>fragment_count = n\<rparr>"


text \<open>
  \<^verbatim>\<open>initPartitioner\<close> with \<^verbatim>\<open>HASH_PARTITION\<close> defined, as the header defines it (line 292):
  the partitioner is initialised with the number of fragments of the communicator.
\<close>

definition initPartitioner :: "CommSpec \<Rightarrow> HashPartitioner" where
  "initPartitioner comm_spec = Init (fnum comm_spec)"










text \<open>
  All rows of one label that the workers have read, in rank order, and the ids a table
  holds.
\<close>

definition rows_of_label :: "'r list list list \<Rightarrow> nat \<Rightarrow> 'r list" where
  "rows_of_label local_tables l = concat (map (\<lambda>tables. tables ! l) local_tables)"


text \<open>A concrete run: operations, communicators and a table.\<close>

definition ex_upcast :: "string \<Rightarrow> string \<Rightarrow> (int \<Rightarrow> int) option" where
  "ex_upcast from_type to_type =
     (if from_type = ''null'' \<or> (from_type = ''int32'' \<and> to_type = ''int64'')
      then Some (\<lambda>v. v) else None)"

definition ex_serialize :: "string Schema \<Rightarrow> string" where
  "ex_serialize s = concat (map (\<lambda>f. fname f @ '':'' @ ftype f @ '';'') (sfields s)) @ ''.''"

definition ex_schema :: "string \<Rightarrow> string Schema" where
  "ex_schema w_type =
     \<lparr>sfields = [\<lparr>fname = ''id'', ftype = ''int64''\<rparr>, \<lparr>fname = ''w'', ftype = w_type\<rparr>],
      metadata = None\<rparr>"

definition ex_schema_int32 :: "string Schema" where
  "ex_schema_int32 =
     \<lparr>sfields = [\<lparr>fname = ''id'', ftype = ''int32''\<rparr>, \<lparr>fname = ''w'', ftype = ''double''\<rparr>],
      metadata = None\<rparr>"

definition ex_deserialize :: "string \<Rightarrow> string Schema option" where
  "ex_deserialize b =
     List.find (\<lambda>s. ex_serialize s = b) [ex_schema ''double'', ex_schema ''null'', ex_schema_int32]"

definition ex_ops :: "(string, int) table_ops" where
  "ex_ops = \<lparr>op_ToString = (\<lambda>t. t), op_sort = sort_by_type (\<lambda>t. t),
             op_SerializeSchema = ex_serialize,
             op_DeserializeSchema = ex_deserialize,
             op_Build = EmptyTableBuilder_Build,
             op_PromoteTableToSchema = PromoteTableToSchema ex_upcast\<rparr>"

definition ex_tables :: "(string, int) Table option list" where
  "ex_tables =
     [Some \<lparr>schema = ex_schema ''double'', columns = [[Some 1, Some 2], [Some 10, None]], num_rows = 2\<rparr>,
      None,
      Some \<lparr>schema = ex_schema ''null'', columns = [[Some 3], [None]], num_rows = 1\<rparr>,
      Some \<lparr>schema = ex_schema_int32, columns = [[Some 4], [Some 40]], num_rows = 1\<rparr>]"

definition ex_comm :: "nat \<Rightarrow> nat \<Rightarrow> CommSpec" where
  "ex_comm n i = \<lparr>worker_num = n, worker_id = i, fnum = n, fid = i, FragToWorker = (\<lambda>f. f mod n)\<rparr>"

definition ex_table :: "(string, int) Table" where
  "ex_table = \<lparr>schema = ex_uniform, columns = [[Some 1, Some 2], [None, Some 5]], num_rows = 2\<rparr>"

definition ex_meta :: "string \<Rightarrow> KeyValueMetadata" where
  "ex_meta label = [(''type'', ''VERTEX''), (''label_index'', label), (''label'', ''_'')]"

definition ex_labelled :: "string \<Rightarrow> int \<Rightarrow> (string, int) Table" where
  "ex_labelled label v =
     \<lparr>schema = \<lparr>sfields = [\<lparr>fname = ''w'', ftype = ''int64''\<rparr>], metadata = Some (ex_meta label)\<rparr>,
      columns = [[Some v]], num_rows = 1\<rparr>"

definition ex_client :: Client where
  "ex_client = \<lparr>Seal = (\<lambda>g. 1000 + length (fragment_objects g)), Persist = (\<lambda>i. None)\<rparr>"

definition ex_topology :: "nat \<Rightarrow> CommSpec" where
  "ex_topology w = \<lparr>worker_num = 3, worker_id = w, fnum = 3, fid = (w + 1) mod 3,
                    FragToWorker = (\<lambda>f. (f + 2) mod 3)\<rparr>"




definition ex_edge_meta :: "string \<Rightarrow> KeyValueMetadata" where
  "ex_edge_meta label =
     [(''type'', ''EDGE''), (''label'', ''_''), (''label_index'', label), (''sub_label_num'', ''1'')]"

definition ex_edge_labelled :: "string \<Rightarrow> int \<Rightarrow> (string, int) Table" where
  "ex_edge_labelled label v =
     \<lparr>schema = \<lparr>sfields = [\<lparr>fname = ''src'', ftype = ''int64''\<rparr>, \<lparr>fname = ''dst'', ftype = ''int64''\<rparr>],
                 metadata = Some (ex_edge_meta label)\<rparr>,
      columns = [[Some v], [Some v]], num_rows = 1\<rparr>"

section \<open>Properties of FindMostCommonSchema\<close>

lemma tcount_snoc: "tcount (Q @ [f]) t = tcount Q t + (if ftype f = t then 1 else 0)"
  by (simp add: tcount_def)

lemma tcount_pos: "q \<in> set Q \<Longrightarrow> 0 < tcount Q (ftype q)"
  using count_list_0_iff[of "map ftype Q" "ftype q"] by (force simp: tcount_def)

lemma tcount_zero: "t \<notin> ftype ` set Q \<Longrightarrow> tcount Q t = 0"
  by (simp add: tcount_def count_list_0_iff)

lemma scan_invI:
  "cur = tcount Q (ftype (last Q)) \<Longrightarrow> 1 \<le> mx \<Longrightarrow> res \<in> set Q \<Longrightarrow> others_le Q mx \<Longrightarrow>
   first_run Q mx \<or> best_so_far ts Q mx res \<Longrightarrow> scan_inv ts Q (mx, cur, res)"
  by (simp add: scan_inv_def)

lemma scan_invD:
  assumes "scan_inv ts Q (mx, cur, res)"
  shows "cur = tcount Q (ftype (last Q))" "1 \<le> mx" "res \<in> set Q" "others_le Q mx"
    "first_run Q mx \<or> best_so_far ts Q mx res"
  using assms by (simp_all add: scan_inv_def)

lemma sorted_last_max:
  assumes sq: "sorted (map (\<lambda>f. ts (ftype f)) Q)" and q: "q \<in> set Q"
  shows "ts (ftype q) \<le> ts (ftype (last Q))"
proof (cases Q rule: rev_cases)
  case Nil
  with q show ?thesis by simp
next
  case (snoc Q' l)
  with sq have "\<forall>x \<in> set Q'. ts (ftype x) \<le> ts (ftype l)"
    by (simp add: sorted_append)
  moreover have "q \<in> set Q' \<or> q = l" using q snoc by auto
  ultimately show ?thesis using snoc by auto
qed

lemma sorted_snoc_fresh:
  assumes srt: "sorted (map (\<lambda>f. ts (ftype f)) (Q @ [f]))" and inj: "inj ts"
    and ne: "Q \<noteq> []" and diff: "ftype f \<noteq> ftype (last Q)"
  shows "ftype f \<notin> ftype ` set Q"
proof
  assume "ftype f \<in> ftype ` set Q"
  then obtain q where q: "q \<in> set Q" "ftype q = ftype f" by auto
  from srt have le: "\<forall>x \<in> set Q. ts (ftype x) \<le> ts (ftype f)"
    and sq: "sorted (map (\<lambda>f. ts (ftype f)) Q)"
    by (simp_all add: sorted_append)
  have lastin: "last Q \<in> set Q" using ne by simp
  have "ts (ftype q) \<le> ts (ftype (last Q))" using sorted_last_max[OF sq q(1)] .
  moreover have "ts (ftype (last Q)) \<le> ts (ftype f)" using le lastin by blast
  ultimately have "ts (ftype (last Q)) = ts (ftype f)" using q(2) by simp
  with inj have "ftype (last Q) = ftype f" by (simp add: inj_eq)
  with diff show False by simp
qed

lemma scan_inv_same:
  assumes inv: "scan_inv ts Q (mx, cur, res)" and ne: "Q \<noteq> []"
    and same: "ftype f = ftype (last Q)"
  shows "scan_inv ts (Q @ [f]) (mx, cur + 1, res)"
proof (rule scan_invI)
  note d = scan_invD[OF inv]
  show "cur + 1 = tcount (Q @ [f]) (ftype (last (Q @ [f])))"
    using d(1) same by (simp add: tcount_snoc)
  show "1 \<le> mx" by (rule d(2))
  show "res \<in> set (Q @ [f])" using d(3) by simp
  show "others_le (Q @ [f]) mx"
    using d(4) same unfolding others_le_def by (simp add: tcount_snoc)
  show "first_run (Q @ [f]) mx \<or> best_so_far ts (Q @ [f]) mx res"
    using d(5)
  proof
    assume "first_run Q mx"
    then have "first_run (Q @ [f]) mx" using same unfolding first_run_def by simp
    then show ?thesis ..
  next
    assume "best_so_far ts Q mx res"
    then have "best_so_far ts (Q @ [f]) mx res"
      using same unfolding best_so_far_def by (auto simp: tcount_snoc)
    then show ?thesis ..
  qed
qed

lemma scan_inv_new_gt:
  assumes inv: "scan_inv ts Q (mx, cur, res)" and ne: "Q \<noteq> []"
    and srt: "sorted (map (\<lambda>f. ts (ftype f)) (Q @ [f]))" and inj: "inj ts"
    and diff: "ftype f \<noteq> ftype (last Q)" and gt: "cur > mx"
  shows "scan_inv ts (Q @ [f]) (cur, 1, last Q)"
proof (rule scan_invI)
  note d = scan_invD[OF inv]
  have fresh: "ftype f \<notin> ftype ` set Q" using sorted_snoc_fresh[OF srt inj ne diff] .
  have z: "tcount Q (ftype f) = 0" using fresh by (rule tcount_zero)
  have lastin: "last Q \<in> set Q" using ne by simp
  have neq: "\<And>q. q \<in> set Q \<Longrightarrow> ftype f \<noteq> ftype q" using fresh by auto
  show "1 = tcount (Q @ [f]) (ftype (last (Q @ [f])))" using z by (simp add: tcount_snoc)
  show "1 \<le> cur" using gt d(2) by simp
  show "last Q \<in> set (Q @ [f])" using lastin by simp
  have small: "\<And>q. q \<in> set Q \<Longrightarrow> ftype q \<noteq> ftype (last Q) \<Longrightarrow> tcount Q (ftype q) < cur"
    using d(4) gt unfolding others_le_def by fastforce
  show "others_le (Q @ [f]) cur"
    unfolding others_le_def
  proof (intro ballI impI)
    fix q assume q: "q \<in> set (Q @ [f])" and qd: "ftype q \<noteq> ftype (last (Q @ [f]))"
    from qd have qf: "ftype q \<noteq> ftype f" by simp
    with q have qQ: "q \<in> set Q" by auto
    have "tcount Q (ftype q) \<le> cur"
    proof (cases "ftype q = ftype (last Q)")
      case True then show ?thesis using d(1) by simp
    next
      case False then show ?thesis using small[OF qQ] by simp
    qed
    then show "tcount (Q @ [f]) (ftype q) \<le> cur" using qf by (simp add: tcount_snoc)
  qed
  have "best_so_far ts (Q @ [f]) cur (last Q)"
    unfolding best_so_far_def
  proof (intro conjI ballI impI)
    show "ftype (last Q) \<noteq> ftype (last (Q @ [f]))" using diff by simp
    show "tcount (Q @ [f]) (ftype (last Q)) = cur" using d(1) diff by (simp add: tcount_snoc)
    fix q assume q: "q \<in> set (Q @ [f])"
      and h: "ftype q \<noteq> ftype (last (Q @ [f])) \<and> tcount (Q @ [f]) (ftype q) = cur"
    from h have qf: "ftype q \<noteq> ftype f" by simp
    with q have qQ: "q \<in> set Q" by auto
    from h qf have c: "tcount Q (ftype q) = cur" by (simp add: tcount_snoc)
    have "ftype q = ftype (last Q)" using small[OF qQ] c by auto
    then show "ts (ftype (last Q)) \<le> ts (ftype q)" by simp
  qed
  then show "first_run (Q @ [f]) cur \<or> best_so_far ts (Q @ [f]) cur (last Q)" ..
qed

lemma scan_inv_new_le:
  assumes inv: "scan_inv ts Q (mx, cur, res)" and ne: "Q \<noteq> []"
    and srt: "sorted (map (\<lambda>f. ts (ftype f)) (Q @ [f]))" and inj: "inj ts"
    and diff: "ftype f \<noteq> ftype (last Q)" and le: "\<not> cur > mx"
  shows "scan_inv ts (Q @ [f]) (mx, 1, res)"
proof (rule scan_invI)
  note d = scan_invD[OF inv]
  have fresh: "ftype f \<notin> ftype ` set Q" using sorted_snoc_fresh[OF srt inj ne diff] .
  have z: "tcount Q (ftype f) = 0" using fresh by (rule tcount_zero)
  have lastin: "last Q \<in> set Q" using ne by simp
  have sq: "sorted (map (\<lambda>f. ts (ftype f)) Q)" using srt by (simp add: sorted_append)
  have resf: "ftype res \<noteq> ftype f" using fresh d(3) by (metis imageI)
  show "1 = tcount (Q @ [f]) (ftype (last (Q @ [f])))" using z by (simp add: tcount_snoc)
  show "1 \<le> mx" by (rule d(2))
  show "res \<in> set (Q @ [f])" using d(3) by simp
  show "others_le (Q @ [f]) mx"
    unfolding others_le_def
  proof (intro ballI impI)
    fix q assume q: "q \<in> set (Q @ [f])" and qd: "ftype q \<noteq> ftype (last (Q @ [f]))"
    from qd have qf: "ftype q \<noteq> ftype f" by simp
    with q have qQ: "q \<in> set Q" by auto
    have "tcount Q (ftype q) \<le> mx"
    proof (cases "ftype q = ftype (last Q)")
      case True then show ?thesis using d(1) le by simp
    next
      case False then show ?thesis using d(4) qQ unfolding others_le_def by simp
    qed
    then show "tcount (Q @ [f]) (ftype q) \<le> mx" using qf by (simp add: tcount_snoc)
  qed
  have "best_so_far ts (Q @ [f]) mx res"
    using d(5)
  proof
    assume fr: "first_run Q mx"
    then have all: "\<forall>q \<in> set Q. ftype q = ftype (last Q)" and mx1: "mx = 1"
      unfolding first_run_def by simp_all
    have "0 < cur" using d(1) tcount_pos[OF lastin] by simp
    with le mx1 have cur1: "cur = 1" by simp
    have rl: "ftype res = ftype (last Q)" using all d(3) by simp
    show ?thesis
      unfolding best_so_far_def
    proof (intro conjI ballI impI)
      show "ftype res \<noteq> ftype (last (Q @ [f]))" using resf by simp
      show "tcount (Q @ [f]) (ftype res) = mx"
        using rl d(1) cur1 mx1 resf by (simp add: tcount_snoc)
      fix q assume q: "q \<in> set (Q @ [f])"
        and h: "ftype q \<noteq> ftype (last (Q @ [f])) \<and> tcount (Q @ [f]) (ftype q) = mx"
      from h have qf: "ftype q \<noteq> ftype f" by simp
      with q have qQ: "q \<in> set Q" by auto
      then have "ftype q = ftype res" using all rl by simp
      then show "ts (ftype res) \<le> ts (ftype q)" by simp
    qed
  next
    assume b: "best_so_far ts Q mx res"
    show ?thesis
      unfolding best_so_far_def
    proof (intro conjI ballI impI)
      show "ftype res \<noteq> ftype (last (Q @ [f]))" using resf by simp
      show "tcount (Q @ [f]) (ftype res) = mx"
        using b resf unfolding best_so_far_def by (simp add: tcount_snoc)
      fix q assume q: "q \<in> set (Q @ [f])"
        and h: "ftype q \<noteq> ftype (last (Q @ [f])) \<and> tcount (Q @ [f]) (ftype q) = mx"
      from h have qf: "ftype q \<noteq> ftype f" by simp
      with q have qQ: "q \<in> set Q" by auto
      from h qf have c: "tcount Q (ftype q) = mx" by (simp add: tcount_snoc)
      show "ts (ftype res) \<le> ts (ftype q)"
      proof (cases "ftype q = ftype (last Q)")
        case True
        then show ?thesis using sorted_last_max[OF sq d(3)] by simp
      next
        case False
        then show ?thesis using b qQ c unfolding best_so_far_def by simp
      qed
    qed
  qed
  then show "first_run (Q @ [f]) mx \<or> best_so_far ts (Q @ [f]) mx res" ..
qed

lemma count_runs_inv:
  assumes "scan_inv ts Q st" and "Q \<noteq> []" and "prev = last Q"
    and "sorted (map (\<lambda>f. ts (ftype f)) (Q @ R))" and "inj ts"
  shows "scan_inv ts (Q @ R) (count_runs prev R st)"
  using assms
proof (induction R arbitrary: Q st prev)
  case Nil
  then show ?case by simp
next
  case (Cons f R)
  obtain mx cur res where st: "st = (mx, cur, res)" by (cases st) auto
  have srt1: "sorted (map (\<lambda>f. ts (ftype f)) (Q @ [f]))"
    using Cons.prems(4) by (simp add: sorted_append)
  have srt2: "sorted (map (\<lambda>f. ts (ftype f)) ((Q @ [f]) @ R))"
    using Cons.prems(4) by simp
  have ne': "Q @ [f] \<noteq> []" by simp
  have l': "f = last (Q @ [f])" by simp
  have inv: "scan_inv ts Q (mx, cur, res)" using Cons.prems(1) st by simp
  show ?case
  proof (cases "ftype f = ftype prev")
    case True
    have "scan_inv ts (Q @ [f]) (mx, cur + 1, res)"
      using scan_inv_same[OF inv Cons.prems(2)] True Cons.prems(3) by simp
    from Cons.IH[OF this ne' l' srt2 Cons.prems(5)] show ?thesis
      using True st by simp
  next
    case False
    then have diff: "ftype f \<noteq> ftype (last Q)" using Cons.prems(3) by simp
    show ?thesis
    proof (cases "cur > mx")
      case True
      have "scan_inv ts (Q @ [f]) (cur, 1, last Q)"
        using scan_inv_new_gt[OF inv Cons.prems(2) srt1 Cons.prems(5) diff True] .
      from Cons.IH[OF this ne' l' srt2 Cons.prems(5)] show ?thesis
        using False True st Cons.prems(3) by simp
    next
      case F2: False
      have "scan_inv ts (Q @ [f]) (mx, 1, res)"
        using scan_inv_new_le[OF inv Cons.prems(2) srt1 Cons.prems(5) diff F2] .
      from Cons.IH[OF this ne' l' srt2 Cons.prems(5)] show ?thesis
        using False F2 st by simp
    qed
  qed
qed

lemma scan_inv_init: "scan_inv ts [f0] (1, 1, f0)"
  by (rule scan_invI) (simp_all add: tcount_def first_run_def others_le_def)

lemma modal_type_mset:
  assumes "mset xs = mset ys"
  shows "modal_type ts xs r = modal_type ts ys r"
proof -
  have s: "set xs = set ys" using assms by (rule mset_eq_setD)
  have c: "\<And>t. count_list xs t = count_list ys t"
    using assms by (metis count_mset)
  show ?thesis unfolding modal_type_def by (simp add: s c)
qed

lemma scan_final_modal:
  assumes inv: "scan_inv ts Q (mx, cur, res)" and ne: "Q \<noteq> []"
    and sq: "sorted (map (\<lambda>f. ts (ftype f)) Q)"
  shows "modal_type ts (map ftype Q) (ftype (if cur > mx then last Q else res))"
proof -
  note d = scan_invD[OF inv]
  have lastin: "last Q \<in> set Q" using ne by simp
  have tc: "\<And>t. count_list (map ftype Q) t = tcount Q t" by (simp add: tcount_def)
  show ?thesis
    using d(5)
  proof
    assume fr: "first_run Q mx"
    then have alleq: "\<And>q. q \<in> set Q \<Longrightarrow> ftype q = ftype (last Q)"
      unfolding first_run_def by blast
    have r: "ftype (if cur > mx then last Q else res) = ftype (last Q)"
      using alleq[OF d(3)] by (cases "cur > mx") simp_all
    have only: "\<And>t. t \<in> set (map ftype Q) \<Longrightarrow> t = ftype (last Q)"
      using alleq by auto
    have "modal_type ts (map ftype Q) (ftype (last Q))"
      unfolding modal_type_def
    proof (intro conjI ballI impI)
      show "ftype (last Q) \<in> set (map ftype Q)" using lastin by simp
    next
      fix t assume "t \<in> set (map ftype Q)"
      from only[OF this]
      show "count_list (map ftype Q) t \<le> count_list (map ftype Q) (ftype (last Q))" by simp
    next
      fix t assume "t \<in> set (map ftype Q)"
      from only[OF this] show "ts (ftype (last Q)) \<le> ts t" by simp
    qed
    then show ?thesis by (simp only: r)
  next
    assume b: "best_so_far ts Q mx res"
    then have b1: "ftype res \<noteq> ftype (last Q)" and b2: "tcount Q (ftype res) = mx"
      and b3: "\<And>q. q \<in> set Q \<Longrightarrow> ftype q \<noteq> ftype (last Q) \<Longrightarrow> tcount Q (ftype q) = mx
                  \<Longrightarrow> ts (ftype res) \<le> ts (ftype q)"
      unfolding best_so_far_def by auto
    have o: "\<And>q. q \<in> set Q \<Longrightarrow> ftype q \<noteq> ftype (last Q) \<Longrightarrow> tcount Q (ftype q) \<le> mx"
      using d(4) unfolding others_le_def by simp
    show ?thesis
    proof (cases "cur > mx")
      case True
      have "modal_type ts (map ftype Q) (ftype (last Q))"
        unfolding modal_type_def tc
      proof (intro conjI ballI impI)
        show "ftype (last Q) \<in> set (map ftype Q)" using lastin by simp
      next
        fix t assume "t \<in> set (map ftype Q)"
        then obtain q where q: "q \<in> set Q" "t = ftype q" by auto
        show "tcount Q t \<le> tcount Q (ftype (last Q))"
        proof (cases "t = ftype (last Q)")
          case True then show ?thesis by simp
        next
          case False
          then have "tcount Q t \<le> mx" using o q by simp
          then show ?thesis using True d(1) by simp
        qed
      next
        fix t assume "t \<in> set (map ftype Q)" and e: "tcount Q t = tcount Q (ftype (last Q))"
        then obtain q where q: "q \<in> set Q" "t = ftype q" by auto
        have "t = ftype (last Q)"
        proof (rule ccontr)
          assume "t \<noteq> ftype (last Q)"
          then have "tcount Q t \<le> mx" using o q by simp
          then show False using True d(1) e by simp
        qed
        then show "ts (ftype (last Q)) \<le> ts t" by simp
      qed
      then show ?thesis using True by simp
    next
      case False
      have "modal_type ts (map ftype Q) (ftype res)"
        unfolding modal_type_def tc
      proof (intro conjI ballI impI)
        show "ftype res \<in> set (map ftype Q)" using d(3) by simp
      next
        fix t assume "t \<in> set (map ftype Q)"
        then obtain q where q: "q \<in> set Q" "t = ftype q" by auto
        show "tcount Q t \<le> tcount Q (ftype res)"
        proof (cases "t = ftype (last Q)")
          case True then show ?thesis using False d(1) b2 by simp
        next
          case F: False
          then show ?thesis using o q b2 by simp
        qed
      next
        fix t assume "t \<in> set (map ftype Q)" and e: "tcount Q t = tcount Q (ftype res)"
        then obtain q where q: "q \<in> set Q" "t = ftype q" by auto
        show "ts (ftype res) \<le> ts t"
        proof (cases "t = ftype (last Q)")
          case True then show ?thesis using sorted_last_max[OF sq d(3)] by simp
        next
          case F: False
          then show ?thesis using b3[OF q(1)] q(2) e b2 by simp
        qed
      qed
      then show ?thesis using False by simp
    qed
  qed
qed

lemma contract_sorted:
  assumes "std_sort_contract (type_less ts) std_sort"
  shows "mset (std_sort (type_less ts) fs) = mset fs"
    and "sorted (map (\<lambda>f. ts (ftype f)) (std_sort (type_less ts) fs))"
proof -
  from assms have a: "mset (std_sort (type_less ts) fs) = mset fs"
    and b: "sorted_wrt (\<lambda>a b. \<not> type_less ts b a) (std_sort (type_less ts) fs)"
    unfolding std_sort_contract_def by simp_all
  show "mset (std_sort (type_less ts) fs) = mset fs" by (rule a)
  have "(\<lambda>a b. \<not> type_less ts b a) = (\<lambda>a b. ts (ftype a) \<le> ts (ftype b))"
    by (auto simp: type_less_def fun_eq_iff)
  with b show "sorted (map (\<lambda>f. ts (ftype f)) (std_sort (type_less ts) fs))"
    by (simp add: sorted_map)
qed

lemma most_common_field_modal:
  assumes c: "std_sort_contract (type_less ts) std_sort" and inj: "inj ts" and ne: "fs \<noteq> []"
  shows "\<exists>r. most_common_field std_sort ts fs = Some r \<and> r \<in> set fs \<and>
             modal_type ts (map ftype fs) (ftype r)"
proof -
  define xs where "xs = std_sort (type_less ts) fs"
  have m: "mset xs = mset fs" and s: "sorted (map (\<lambda>f. ts (ftype f)) xs)"
    unfolding xs_def using contract_sorted[OF c] by simp_all
  have "xs \<noteq> []"
  proof
    assume "xs = []"
    with m have "mset fs = {#}" by simp
    then show False using ne by simp
  qed
  then obtain f0 rest where xs: "xs = f0 # rest" by (cases xs) auto
  obtain mx cur res where st: "count_runs f0 rest (1, 1, f0) = (mx, cur, res)"
    by (cases "count_runs f0 rest (1, 1, f0)") auto
  have s': "sorted (map (\<lambda>f. ts (ftype f)) ([f0] @ rest))" using s xs by simp
  have "scan_inv ts ([f0] @ rest) (count_runs f0 rest (1, 1, f0))"
    by (rule count_runs_inv[OF scan_inv_init _ _ s' inj]) simp_all
  then have inv: "scan_inv ts xs (mx, cur, res)" using st xs by simp
  have xne: "xs \<noteq> []" using xs by simp
  define r where "r = (if cur > mx then last xs else res)"
  have mod: "modal_type ts (map ftype xs) (ftype r)"
    unfolding r_def by (rule scan_final_modal[OF inv xne s])
  have "mset (map ftype xs) = mset (map ftype fs)" using m by simp
  then have mod': "modal_type ts (map ftype fs) (ftype r)"
    using mod modal_type_mset[of "map ftype xs" "map ftype fs" ts "ftype r"] by simp
  have "r \<in> set xs" unfolding r_def using scan_invD(3)[OF inv] xne by simp
  moreover have "set xs = set fs" using m by (rule mset_eq_setD)
  ultimately have rin: "r \<in> set fs" by simp
  have "most_common_field std_sort ts fs = Some (if cur > mx then last (f0 # rest) else res)"
    unfolding most_common_field_def using xs st by (simp add: xs_def del: last.simps)
  then have "most_common_field std_sort ts fs = Some r" unfolding r_def xs by simp
  with rin mod' show ?thesis by blast
qed

lemma collect_fields_contributed:
  assumes "\<forall>s. Some s \<in> set schemas \<longrightarrow> i < length (sfields s)"
  shows "collect_fields i schemas = Some (contributed i schemas)"
  using assms
proof (induction schemas)
  case Nil
  then show ?case by (simp add: contributed_def List.map_filter_simps)
next
  case (Cons x ss)
  then have IH: "collect_fields i ss = Some (contributed i ss)" by simp
  show ?case
  proof (cases x)
    case None
    then show ?thesis using IH by (simp add: contributed_def List.map_filter_simps)
  next
    case (Some s)
    then have "i < length (sfields s)" using Cons.prems by simp
    then show ?thesis using IH Some
      by (simp add: contributed_def List.map_filter_simps field_at_def)
  qed
qed

lemma sequence_option_map:
  assumes "\<forall>x \<in> set xs. f x = Some (g x)"
  shows "sequence_option (map f xs) = Some (map g xs)"
  using assms by (induction xs) simp_all

lemma first_field_num_pos:
  assumes "i < first_field_num schemas"
  shows "contributed i schemas \<noteq> []"
  using assms
proof (induction schemas)
  case Nil
  then show ?case by simp
next
  case (Cons x ss)
  then show ?case by (cases x) (simp_all add: contributed_def List.map_filter_simps)
qed

lemma sort_by_type_contract: "std_sort_contract (type_less ts) (sort_by_type ts)"
  unfolding std_sort_contract_def sort_by_type_def
proof (intro allI conjI)
  fix xs :: "'a Field list"
  let ?k = "\<lambda>f. ts (ftype f)"
  show "mset (sort_key ?k xs) = mset xs" by simp
  have "sorted (map ?k (sort_key ?k xs))" by simp
  then have "sorted_wrt (\<lambda>a b. ?k a \<le> ?k b) (sort_key ?k xs)" by (simp only: sorted_map)
  then show "sorted_wrt (\<lambda>a b. \<not> type_less ts b a) (sort_key ?k xs)"
    by (simp add: type_less_def not_less)
qed

lemma FindMostCommonSchema_eq:
  assumes c: "std_sort_contract (type_less ts) std_sort" and inj: "inj ts"
    and len: "\<forall>s. Some s \<in> set schemas \<longrightarrow> first_field_num schemas \<le> length (sfields s)"
  shows "FindMostCommonSchema std_sort ts schemas =
           Some \<lparr>sfields = map (\<lambda>i. the (most_common_field std_sort ts (contributed i schemas)))
                             [0..<first_field_num schemas],
                 metadata = None\<rparr>"
proof -
  let ?n = "first_field_num schemas"
  have 1: "sequence_option (map (\<lambda>i. collect_fields i schemas) [0..<?n]) =
             Some (map (\<lambda>i. contributed i schemas) [0..<?n])"
  proof (rule sequence_option_map, rule ballI)
    fix i assume "i \<in> set [0..<?n]"
    then have "\<forall>s. Some s \<in> set schemas \<longrightarrow> i < length (sfields s)" using len by fastforce
    then show "collect_fields i schemas = Some (contributed i schemas)"
      by (rule collect_fields_contributed)
  qed
  have 2: "sequence_option (map (most_common_field std_sort ts) (map (\<lambda>i. contributed i schemas) [0..<?n])) =
             Some (map (\<lambda>i. the (most_common_field std_sort ts (contributed i schemas))) [0..<?n])"
    unfolding map_map
  proof (rule sequence_option_map, rule ballI)
    fix i assume "i \<in> set [0..<?n]"
    then have "contributed i schemas \<noteq> []" using first_field_num_pos by simp
    from most_common_field_modal[OF c inj this]
    show "(most_common_field std_sort ts \<circ> (\<lambda>i. contributed i schemas)) i =
            Some (the (most_common_field std_sort ts (contributed i schemas)))"
      by auto
  qed
  show ?thesis unfolding FindMostCommonSchema_def Let_def 1 option.case 2 option.case by (rule refl)
qed



lemma ex_schemas_result: "FindMostCommonSchema (sort_by_type (\<lambda>t. t)) (\<lambda>t. t) ex_schemas =
   Some \<lparr>sfields = [\<lparr>fname = ''id'', ftype = ''int64''\<rparr>, \<lparr>fname = ''w'', ftype = ''double''\<rparr>], metadata = None\<rparr>"
  by code_simp

lemma ex_schemas_contributed: "contributed 1 ex_schemas = [\<lparr>fname = ''w'', ftype = ''int64''\<rparr>, \<lparr>fname = ''w'', ftype = ''double''\<rparr>, \<lparr>fname = ''w'', ftype = ''double''\<rparr>]"
  by code_simp

lemma ex_schemas_field_num: "first_field_num ex_schemas = 2"
  by code_simp

lemma ex_schemas_long_enough: "\<forall>s. Some s \<in> set ex_schemas \<longrightarrow> first_field_num ex_schemas \<le> length (sfields s)"
  by (auto simp: ex_schemas_def)


lemma count_runs_replicate:
  "ftype x = ftype p \<Longrightarrow> count_runs p (replicate m x) (mx, c, r) = (mx, c + m, r)"
proof (induction m arbitrary: c p)
  case 0
  then show ?case by simp
next
  case (Suc m)
  have "count_runs x (replicate m x) (mx, c + 1, r) = (mx, c + 1 + m, r)"
    by (rule Suc.IH) simp
  then show ?case using Suc.prems by simp
qed

lemma mset_replicate_eq:
  assumes "mset xs = mset (replicate n x)"
  shows "xs = replicate n x"
proof (rule replicate_eqI)
  show "length xs = n" using assms by (metis length_replicate mset_eq_length)
next
  fix y assume "y \<in> set xs"
  then have "y \<in> set (replicate n x)" using assms by (metis mset_eq_setD)
  then show "y = x" by simp
qed

lemma most_common_field_replicate:
  assumes p: "\<forall>xs. mset (std_sort (type_less ts) xs) = mset xs"
  shows "most_common_field std_sort ts (replicate (Suc m) x) = Some x"
proof -
  have "mset (std_sort (type_less ts) (replicate (Suc m) x)) = mset (replicate (Suc m) x)"
    using p by blast
  then have "std_sort (type_less ts) (replicate (Suc m) x) = replicate (Suc m) x"
    by (rule mset_replicate_eq)
  then have e: "std_sort (type_less ts) (replicate (Suc m) x) = x # replicate m x"
    by simp
  have c: "count_runs x (replicate m x) (1, 1, x) = (1, 1 + m, x)"
    by (rule count_runs_replicate) simp
  have l: "last (x # replicate m x) = x"
    using last_replicate[of "Suc m" x] by simp
  show ?thesis
    unfolding most_common_field_def e list.case c prod.case l by simp
qed

lemma first_field_num_uniform:
  assumes "Some s0 \<in> set schemas" and "\<forall>s. Some s \<in> set schemas \<longrightarrow> sfields s = fs"
  shows "first_field_num schemas = length fs"
  using assms
proof (induction schemas)
  case Nil
  then show ?case by simp
next
  case (Cons x ss)
  show ?case
  proof (cases x)
    case None
    then show ?thesis using Cons by auto
  next
    case (Some s)
    then show ?thesis using Cons.prems(2) by simp
  qed
qed

lemma contributed_uniform:
  assumes "\<forall>s. Some s \<in> set schemas \<longrightarrow> sfields s = fs"
  shows "contributed i schemas = replicate (length (List.map_filter (\<lambda>x. x) schemas)) (fs ! i)"
  using assms
proof (induction schemas)
  case Nil
  then show ?case by (simp add: contributed_def List.map_filter_simps)
next
  case (Cons x ss)
  then have IH: "contributed i ss = replicate (length (List.map_filter (\<lambda>x. x) ss)) (fs ! i)"
    by simp
  show ?case
  proof (cases x)
    case None
    then show ?thesis using IH by (simp add: contributed_def List.map_filter_simps)
  next
    case (Some s)
    then have "sfields s = fs" using Cons.prems by simp
    then show ?thesis using IH Some by (simp add: contributed_def List.map_filter_simps)
  qed
qed

lemma map_filter_nonempty:
  assumes "Some s0 \<in> set schemas"
  shows "\<exists>m. length (List.map_filter (\<lambda>x. x) schemas) = Suc m"
proof -
  have "s0 \<in> set (List.map_filter (\<lambda>x. x) schemas)"
    using assms by (induction schemas) (auto simp: List.map_filter_simps split: option.splits)
  then have "List.map_filter (\<lambda>x. x) schemas \<noteq> []" by auto
  then show ?thesis by (cases "List.map_filter (\<lambda>x. x) schemas") auto
qed


lemma FindMostCommonSchema_modal_first:
  assumes "std_sort_contract (type_less ToString) std_sort" and "inj ToString"
    and "\<forall>s. Some s \<in> set schemas \<longrightarrow> first_field_num schemas \<le> length (sfields s)"
  shows "\<exists>r. FindMostCommonSchema std_sort ToString schemas = Some r \<and>
             length (sfields r) = first_field_num schemas \<and>
             (\<forall>i < first_field_num schemas.
                 modal_type ToString (map ftype (contributed i schemas)) (ftype (sfields r ! i)))"
proof -
  let ?n = "first_field_num schemas"
  let ?r = "\<lparr>sfields = map (\<lambda>i. the (most_common_field std_sort ToString (contributed i schemas)))
                             [0..<?n], metadata = None\<rparr>"
  have eq: "FindMostCommonSchema std_sort ToString schemas = Some ?r"
    by (rule FindMostCommonSchema_eq[OF assms])
  have "modal_type ToString (map ftype (contributed i schemas)) (ftype (sfields ?r ! i))"
    if "i < ?n" for i
  proof -
    have "contributed i schemas \<noteq> []" using that by (rule first_field_num_pos)
    from most_common_field_modal[OF assms(1,2) this] that
    show ?thesis by auto
  qed
  with eq show ?thesis by auto
qed

lemma first_field_num_positions: "first_field_num schemas = field_positions schemas"
proof (induction schemas)
  case Nil
  then show ?case by (simp add: field_positions_def List.map_filter_simps)
next
  case (Cons x ss)
  then show ?case by (cases x) (simp_all add: field_positions_def List.map_filter_simps)
qed

text \<open>
  On every list in which no non-null schema is shorter than the first non-null one,
  \<^verbatim>\<open>FindMostCommonSchema\<close> returns a schema with one field for each position of that first
  schema, and the type of each field is the modal type of the fields contributed at its
  position, the first in the order of the type strings among the types that occur as
  often. This holds for every sort that meets the contract of \<^verbatim>\<open>std::sort\<close>, given that the
  type string is canonical (two types with the same string are equal).
\<close>

theorem FindMostCommonSchema_modal_positions:
  assumes "std_sort_contract (type_less ToString) std_sort" and "inj ToString"
    and "\<forall>s. Some s \<in> set schemas \<longrightarrow> field_positions schemas \<le> length (sfields s)"
  shows "\<exists>r. FindMostCommonSchema std_sort ToString schemas = Some r \<and>
             length (sfields r) = field_positions schemas \<and>
             (\<forall>i < field_positions schemas.
                 modal_type ToString (map ftype (contributed i schemas)) (ftype (sfields r ! i)))"
  using FindMostCommonSchema_modal_first[OF assms(1,2), of schemas] assms(3)
  unfolding first_field_num_positions by simp

lemma FindMostCommonSchema_modal_example:
  "FindMostCommonSchema (sort_by_type (\<lambda>t. t)) (\<lambda>t. t) ex_schemas =
     Some \<lparr>sfields = [\<lparr>fname = ''id'', ftype = ''int64''\<rparr>, \<lparr>fname = ''w'', ftype = ''double''\<rparr>],
           metadata = None\<rparr> \<and>
   modal_type (\<lambda>t. t) [''int64'', ''double'', ''double''] ''double''"
proof -
  have inj: "inj (\<lambda>t::string. t)" by simp
  from FindMostCommonSchema_modal_first[OF sort_by_type_contract inj ex_schemas_long_enough]
  obtain r where r: "FindMostCommonSchema (sort_by_type (\<lambda>t. t)) (\<lambda>t. t) ex_schemas = Some r"
    and m: "\<forall>i < first_field_num ex_schemas.
              modal_type (\<lambda>t. t) (map ftype (contributed i ex_schemas)) (ftype (sfields r ! i))"
    by blast
  from r ex_schemas_result have req: "r = \<lparr>sfields = [\<lparr>fname = ''id'', ftype = ''int64''\<rparr>, \<lparr>fname = ''w'', ftype = ''double''\<rparr>], metadata = None\<rparr>"
    by simp
  from m ex_schemas_field_num have "modal_type (\<lambda>t. t) (map ftype (contributed 1 ex_schemas)) (ftype (sfields r ! 1))"
    by simp
  then have "modal_type (\<lambda>t. t) [''int64'', ''double'', ''double''] ''double''"
    unfolding ex_schemas_contributed req by simp
  with ex_schemas_result show ?thesis by simp
qed

text \<open>
  Claim C3. The claim is for every list of schemas, and the function does not meet it on
  a list in which a schema is shorter than the first non-null one: the second loop reads
  \<^verbatim>\<open>schemas[j]->field(i)\<close> for every non-null schema and every position of the first one,
  with no check that the schema has the position. With the schemas of three workers, of
  which the first has no table and the third has no column \<^verbatim>\<open>w\<close>, position 0 is collected
  and position 1 is read out of range in the third schema, so that no schema is returned.
\<close>

theorem FindMostCommonSchema_short_schema:
  "FindMostCommonSchema (sort_by_type (\<lambda>t. t)) (\<lambda>t. t) ex_short_schemas = None \<and>
   collect_fields 0 ex_short_schemas =
     Some [\<lparr>fname = ''id'', ftype = ''int64''\<rparr>, \<lparr>fname = ''id'', ftype = ''int64''\<rparr>] \<and>
   collect_fields 1 ex_short_schemas = None"
  by code_simp

text \<open>
  Claim C8. Reconciling schemas that are already uniform changes nothing: when all
  non-null schemas have the same fields, \<^verbatim>\<open>FindMostCommonSchema\<close> returns the schema with
  exactly these fields, in the same order and with the same types.
\<close>

theorem FindMostCommonSchema_uniform:
  assumes "std_sort_contract (type_less ToString) std_sort"
    and "Some s0 \<in> set schemas"
    and "\<forall>s. Some s \<in> set schemas \<longrightarrow> sfields s = sfields s0"
  shows "FindMostCommonSchema std_sort ToString schemas =
           Some \<lparr>sfields = sfields s0, metadata = None\<rparr>"
proof -
  let ?fs = "sfields s0"
  have p: "\<forall>xs. mset (std_sort (type_less ToString) xs) = mset xs"
    using assms(1) unfolding std_sort_contract_def by simp
  have n: "first_field_num schemas = length ?fs"
    by (rule first_field_num_uniform[OF assms(2,3)])
  obtain m where m: "length (List.map_filter (\<lambda>x. x) schemas) = Suc m"
    using map_filter_nonempty[OF assms(2)] by blast
  have col: "contributed i schemas = replicate (Suc m) (?fs ! i)" for i
    using contributed_uniform[OF assms(3), of i] m by simp
  have 1: "sequence_option (map (\<lambda>i. collect_fields i schemas) [0..<length ?fs]) =
             Some (map (\<lambda>i. contributed i schemas) [0..<length ?fs])"
  proof (rule sequence_option_map, rule ballI)
    fix i assume "i \<in> set [0..<length ?fs]"
    then have "\<forall>s. Some s \<in> set schemas \<longrightarrow> i < length (sfields s)" using assms(3) by simp
    then show "collect_fields i schemas = Some (contributed i schemas)"
      by (rule collect_fields_contributed)
  qed
  have 2: "sequence_option (map (most_common_field std_sort ToString)
               (map (\<lambda>i. contributed i schemas) [0..<length ?fs])) =
             Some (map (\<lambda>i. ?fs ! i) [0..<length ?fs])"
    unfolding map_map
  proof (rule sequence_option_map, rule ballI)
    fix i assume "i \<in> set [0..<length ?fs]"
    show "(most_common_field std_sort ToString \<circ> (\<lambda>i. contributed i schemas)) i = Some (?fs ! i)"
      using most_common_field_replicate[of std_sort ToString m "?fs ! i"] p col[of i] by simp
  qed
  have 3: "map (\<lambda>i. ?fs ! i) [0..<length ?fs] = ?fs" by (rule map_nth)
  show ?thesis
    unfolding FindMostCommonSchema_def Let_def n 1 option.case 2 option.case 3 by (rule refl)
qed

theorem FindMostCommonSchema_uniform_witness:
  "FindMostCommonSchema (sort_by_type (\<lambda>t. t)) (\<lambda>t. t) [None, Some ex_uniform, Some ex_uniform] =
   Some \<lparr>sfields = [\<lparr>fname = ''id'', ftype = ''int64''\<rparr>, \<lparr>fname = ''w'', ftype = ''double''\<rparr>],
         metadata = None\<rparr>"
proof -
  have 1: "Some ex_uniform \<in> set [None, Some ex_uniform, Some ex_uniform]" by simp
  have 2: "\<forall>s. Some s \<in> set [None, Some ex_uniform, Some ex_uniform] \<longrightarrow> sfields s = sfields ex_uniform"
    by simp
  show ?thesis
    using FindMostCommonSchema_uniform[OF sort_by_type_contract 1 2]
    by (simp add: ex_uniform_def)
qed

section \<open>Properties of SyncSchema\<close>

text \<open>
  Claim C9. With a single worker \<^verbatim>\<open>SyncSchema\<close> returns success at once: it enters no
  collective and leaves the table of the worker as it was.
\<close>

theorem SyncSchema_single_worker:
  assumes "worker_num comm_spec = 1"
  shows "SyncSchema ops comm_spec tables =
           \<lparr>sync_status = OK, sync_table = tables ! worker_id comm_spec, sync_calls = []\<rparr>"
  using assms by (simp add: SyncSchema_def Let_def)

theorem SyncSchema_single_worker_witness:
  "SyncSchema ex_ops (ex_comm 1 0) [Some ex_table] =
     \<lparr>sync_status = OK, sync_table = Some ex_table, sync_calls = []\<rparr>"
proof -
  have "worker_num (ex_comm 1 0) = 1" by (simp add: ex_comm_def)
  from SyncSchema_single_worker[OF this, of ex_ops "[Some ex_table]"]
  show ?thesis by (simp add: ex_comm_def)
qed

lemma sum_list_all_zero: "\<forall>x \<in> set xs. x = (0::int) \<Longrightarrow> sum_list xs = 0"
  by (induction xs) simp_all

lemma coordinator_schema_all_empty:
  assumes "\<forall>t \<in> set tables. local_size ops t = 0"
  shows "coordinator_schema ops tables = Inl (GSError kIOError ''All schema is empty'', [MPI_Gather])"
proof -
  have "sum_list (map (local_size ops) tables) = 0"
    by (rule sum_list_all_zero) (use assms in auto)
  then show ?thesis by (simp add: coordinator_schema_def)
qed

text \<open>
  Claim C5. With more than one worker, when every worker contributes a serialized schema
  of length zero, \<^verbatim>\<open>SyncSchema\<close> produces no final schema: the coordinator returns the
  error \<^verbatim>\<open>kIOError\<close> after the gather of the sizes and broadcasts nothing, no worker
  returns success, and every table is left as it was.
\<close>

theorem SyncSchema_all_empty:
  assumes "1 < worker_num comm_spec"
    and "\<forall>t \<in> set tables. local_size ops t = 0"
  shows "(worker_id comm_spec = 0 \<longrightarrow>
            sync_status (SyncSchema ops comm_spec tables) = GSError kIOError ''All schema is empty'' \<and>
            sync_calls (SyncSchema ops comm_spec tables) = [MPI_Gather]) \<and>
         sync_status (SyncSchema ops comm_spec tables) \<noteq> OK \<and>
         MPI_Bcast \<notin> set (sync_calls (SyncSchema ops (comm_spec\<lparr>worker_id := 0\<rparr>) tables)) \<and>
         sync_table (SyncSchema ops comm_spec tables) = tables ! worker_id comm_spec"
proof -
  have c: "coordinator_schema ops tables =
             Inl (GSError kIOError ''All schema is empty'', [MPI_Gather])"
    by (rule coordinator_schema_all_empty[OF assms(2)])
  show ?thesis using assms(1) by (auto simp add: SyncSchema_def Let_def c)
qed

theorem SyncSchema_all_empty_witness:
  "SyncSchema ex_ops (ex_comm 3 0) [None, None, None] =
     \<lparr>sync_status = GSError kIOError ''All schema is empty'', sync_table = None,
      sync_calls = [MPI_Gather]\<rparr> \<and>
   sync_status (SyncSchema ex_ops (ex_comm 3 2) [None, None, None]) = Unmatched"
proof -
  have 1: "1 < worker_num (ex_comm 3 0)" by (simp add: ex_comm_def)
  have 2: "\<forall>t \<in> set [None, None, None]. local_size ex_ops t = 0"
    by (simp add: local_size_def local_buffer_def)
  have 3: "worker_id (ex_comm 3 0) = 0" by (simp add: ex_comm_def)
  from SyncSchema_all_empty[OF 1 2] 3
  have "sync_status (SyncSchema ex_ops (ex_comm 3 0) [None, None, None]) =
          GSError kIOError ''All schema is empty''"
    by simp
  moreover have "sync_table (SyncSchema ex_ops (ex_comm 3 0) [None, None, None]) = None"
    and "sync_calls (SyncSchema ex_ops (ex_comm 3 0) [None, None, None]) = [MPI_Gather]"
    using SyncSchema_all_empty[OF 1 2] 3 by simp_all
  moreover have "sync_status (SyncSchema ex_ops (ex_comm 3 2) [None, None, None]) = Unmatched"
    by (simp add: SyncSchema_def Let_def ex_comm_def coordinator_schema_def local_size_def local_buffer_def)
  ultimately show ?thesis by (cases "SyncSchema ex_ops (ex_comm 3 0) [None, None, None]") simp
qed

lemma sequence_sum_Inr:
  assumes "sequence_sum (map f xs) = Inr ys"
  shows "length ys = length xs \<and> (\<forall>j < length xs. f (xs ! j) = Inr (ys ! j))"
  using assms
proof (induction xs arbitrary: ys)
  case Nil
  then show ?case by simp
next
  case (Cons x xs)
  show ?case
  proof (cases "f x")
    case (Inl e)
    then show ?thesis using Cons.prems by simp
  next
    case (Inr y)
    show ?thesis
    proof (cases "sequence_sum (map f xs)")
      case (Inl e)
      then show ?thesis using Cons.prems Inr by simp
    next
      case r: (Inr zs)
      then have ys: "ys = y # zs" using Cons.prems Inr by simp
      from Cons.IH[OF r] have IH: "length zs = length xs" "\<forall>j < length xs. f (xs ! j) = Inr (zs ! j)"
        by simp_all
      show ?thesis
      proof (intro conjI allI impI)
        show "length ys = length (x # xs)" using ys IH(1) by simp
      next
        fix j assume "j < length (x # xs)"
        then show "f ((x # xs) ! j) = Inr (ys ! j)"
          using ys IH(2) Inr by (cases j) simp_all
      qed
    qed
  qed
qed

lemma column_indices_mem:
  "k \<in> set (column_indices t n) \<longleftrightarrow> k < length (sfields (schema t)) \<and> fname (sfields (schema t) ! k) = n"
  by (auto simp: column_indices_def)

lemma promote_field_own:
  assumes p: "promote_field upcast t f = Inr c"
    and k: "k < length (sfields (schema t))" and n: "fname (sfields (schema t) ! k) = fname f"
  shows "c = columns t ! k \<or>
         (\<exists>conv. upcast (ftype (sfields (schema t) ! k)) (ftype f) = Some conv \<and>
                 c = map (map_option conv) (columns t ! k))"
proof -
  have mem: "k \<in> set (column_indices t (fname f))" using k n by (simp add: column_indices_mem)
  show ?thesis
  proof (cases "column_indices t (fname f)")
    case Nil
    then show ?thesis using mem by simp
  next
    case (Cons a as)
    show ?thesis
    proof (cases as)
      case Nil
      then have ci: "column_indices t (fname f) = [k]" using Cons mem by simp
      show ?thesis using p unfolding promote_field_def ci
        by (auto split: if_splits option.splits)
    next
      case c2: (Cons b bs)
      then show ?thesis using p Cons unfolding promote_field_def by simp
    qed
  qed
qed

lemma promote_field_missing:
  assumes "promote_field upcast t f = Inr c" and "column_indices t (fname f) = []"
  shows "c = replicate (num_rows t) None"
  using assms unfolding promote_field_def by simp

lemma PromoteTableToSchema_promoted:
  assumes "PromoteTableToSchema upcast t s = Inr t'" and ll: "lossless upcast"
  shows "promoted upcast t s t'"
proof -
  from assms have names: "\<forall>f \<in> set (sfields (schema t)). fname f \<in> fname ` set (sfields s)"
    unfolding PromoteTableToSchema_def by (auto split: if_splits)
  from assms names obtain cols where cols: "sequence_sum (map (promote_field upcast t) (sfields s)) = Inr cols"
    and t': "t' = \<lparr>schema = s, columns = cols, num_rows = num_rows t\<rparr>"
    unfolding PromoteTableToSchema_def by (auto split: if_splits sum.splits)
  from sequence_sum_Inr[OF cols] have len: "length cols = length (sfields s)"
    and each: "\<And>j. j < length (sfields s) \<Longrightarrow> promote_field upcast t (sfields s ! j) = Inr (cols ! j)"
    by simp_all
  have miss: "\<forall>j < length (sfields s). column_indices t (fname (sfields s ! j)) = [] \<longrightarrow>
                columns t' ! j = replicate (num_rows t) None"
    using each promote_field_missing t' by fastforce
  have own: "\<forall>k < length (sfields (schema t)).
          \<exists>j < length (sfields s).
            fname (sfields s ! j) = fname (sfields (schema t) ! k) \<and>
            (columns t' ! j = columns t ! k \<or>
             (\<exists>conv. upcast (ftype (sfields (schema t) ! k)) (ftype (sfields s ! j)) = Some conv \<and>
                     inj conv \<and>
                     columns t' ! j = map (map_option conv) (columns t ! k)))"
  proof (intro allI impI)
    fix k assume k: "k < length (sfields (schema t))"
    then have "fname (sfields (schema t) ! k) \<in> fname ` set (sfields s)" using names by simp
    then obtain g where g: "g \<in> set (sfields s)" "fname g = fname (sfields (schema t) ! k)"
      by auto
    then obtain j where j: "j < length (sfields s)" "sfields s ! j = g"
      by (auto simp: in_set_conv_nth)
    have n: "fname (sfields (schema t) ! k) = fname (sfields s ! j)" using g(2) j(2) by simp
    from promote_field_own[OF each[OF j(1)] k n]
    have "cols ! j = columns t ! k \<or>
         (\<exists>conv. upcast (ftype (sfields (schema t) ! k)) (ftype (sfields s ! j)) = Some conv \<and>
                 cols ! j = map (map_option conv) (columns t ! k))" .
    then have "cols ! j = columns t ! k \<or>
         (\<exists>conv. upcast (ftype (sfields (schema t) ! k)) (ftype (sfields s ! j)) = Some conv \<and>
                 inj conv \<and> cols ! j = map (map_option conv) (columns t ! k))"
      using ll unfolding lossless_def by blast
    then show "\<exists>j < length (sfields s).
            fname (sfields s ! j) = fname (sfields (schema t) ! k) \<and>
            (columns t' ! j = columns t ! k \<or>
             (\<exists>conv. upcast (ftype (sfields (schema t) ! k)) (ftype (sfields s ! j)) = Some conv \<and>
                     inj conv \<and>
                     columns t' ! j = map (map_option conv) (columns t ! k)))"
      using j(1) n t' by auto
  qed
  show ?thesis unfolding promoted_def using t' len miss own by simp
qed

lemma SyncSchema_agreed:
  assumes "1 < worker_num comm_spec"
    and "coordinator_schema ops tables = Inr final_schema"
    and "op_DeserializeSchema ops (op_SerializeSchema ops final_schema) = Some final_schema"
  shows "SyncSchema ops comm_spec tables =
           reconcile ops (tables ! worker_id comm_spec) final_schema
             [MPI_Gather, MPI_Gatherv, MPI_Bcast, MPI_Bcast]"
  using assms by (auto simp: SyncSchema_def Let_def)

lemma ex_tables_final_schema: "coordinator_schema ex_ops ex_tables = Inr (ex_schema ''double'')"
  by code_simp

lemma ex_ops_roundtrip: "op_DeserializeSchema ex_ops (op_SerializeSchema ex_ops (ex_schema ''double'')) = Some (ex_schema ''double'')"
  by code_simp

lemma ex_promotion: "PromoteTableToSchema ex_upcast
       \<lparr>schema = ex_schema ''null'', columns = [[Some 3], [None]], num_rows = 1\<rparr> (ex_schema ''double'') =
     Inr \<lparr>schema = ex_schema ''double'', columns = [[Some 3], [None]], num_rows = 1\<rparr>"
  by code_simp

lemma ex_promotion_int32: "PromoteTableToSchema ex_upcast
       \<lparr>schema = ex_schema_int32, columns = [[Some 4], [Some 40]], num_rows = 1\<rparr> (ex_schema ''double'') =
     Inr \<lparr>schema = ex_schema ''double'', columns = [[Some 4], [Some 40]], num_rows = 1\<rparr>"
  by code_simp

text \<open>
  Claim C4. Once the coordinator has a final schema (and the workers read back the schema
  that it broadcasts), a worker without a table ends with an empty table, of no rows,
  whose schema is the final schema; a worker with a table ends with its table promoted to
  the final schema, where a field it did not have is a column of nulls and every one of its
  own columns is there under its name, with its cells unchanged or upcast by an injective
  conversion of the values (null cells stay null, cells with a value keep a value); and
  when its table cannot be promoted the call does not return. The builder of the empty
  table and the promotion are the models of the spec above; the upcasts are lossless, as
  section 4.2 of the spec requires.
\<close>

theorem SyncSchema_reconciles:
  assumes "op_Build ops = EmptyTableBuilder_Build"
    and "op_PromoteTableToSchema ops = PromoteTableToSchema upcast"
    and "lossless upcast"
    and "1 < worker_num comm_spec"
    and "coordinator_schema ops tables = Inr final_schema"
    and "op_DeserializeSchema ops (op_SerializeSchema ops final_schema) = Some final_schema"
  shows "(tables ! worker_id comm_spec = None \<longrightarrow>
            SyncSchema ops comm_spec tables =
              \<lparr>sync_status = OK,
               sync_table = Some \<lparr>schema = final_schema,
                                  columns = replicate (length (sfields final_schema)) [],
                                  num_rows = 0\<rparr>,
               sync_calls = [MPI_Gather, MPI_Gatherv, MPI_Bcast, MPI_Bcast]\<rparr>) \<and>
         (\<forall>t. tables ! worker_id comm_spec = Some t \<longrightarrow>
            (case PromoteTableToSchema upcast t final_schema of
               Inl msg \<Rightarrow> sync_status (SyncSchema ops comm_spec tables) = Aborted
             | Inr t' \<Rightarrow>
                 sync_status (SyncSchema ops comm_spec tables) = OK \<and>
                 sync_table (SyncSchema ops comm_spec tables) = Some t' \<and>
                 promoted upcast t final_schema t'))"
proof (intro conjI allI impI)
  note eq = SyncSchema_agreed[OF assms(4,5,6)]
  {
    assume "tables ! worker_id comm_spec = None"
    then show "SyncSchema ops comm_spec tables =
              \<lparr>sync_status = OK,
               sync_table = Some \<lparr>schema = final_schema,
                                  columns = replicate (length (sfields final_schema)) [],
                                  num_rows = 0\<rparr>,
               sync_calls = [MPI_Gather, MPI_Gatherv, MPI_Bcast, MPI_Bcast]\<rparr>"
      unfolding eq by (simp add: reconcile_def assms(1) EmptyTableBuilder_Build_def)
  }
  {
    fix t assume t: "tables ! worker_id comm_spec = Some t"
    show "case PromoteTableToSchema upcast t final_schema of
               Inl msg \<Rightarrow> sync_status (SyncSchema ops comm_spec tables) = Aborted
             | Inr t' \<Rightarrow>
                 sync_status (SyncSchema ops comm_spec tables) = OK \<and>
                 sync_table (SyncSchema ops comm_spec tables) = Some t' \<and>
                 promoted upcast t final_schema t'"
    proof (cases "PromoteTableToSchema upcast t final_schema")
      case (Inl msg)
      then show ?thesis unfolding eq by (simp add: reconcile_def assms(2) t)
    next
      case (Inr t')
      then show ?thesis
        unfolding eq using PromoteTableToSchema_promoted[OF Inr assms(3)]
        by (simp add: reconcile_def assms(2) t)
    qed
  }
qed

theorem SyncSchema_reconciles_witness:
  "SyncSchema ex_ops (ex_comm 4 1) ex_tables =
     \<lparr>sync_status = OK,
      sync_table = Some \<lparr>schema = ex_schema ''double'', columns = [[], []], num_rows = 0\<rparr>,
      sync_calls = [MPI_Gather, MPI_Gatherv, MPI_Bcast, MPI_Bcast]\<rparr> \<and>
   sync_status (SyncSchema ex_ops (ex_comm 4 2) ex_tables) = OK \<and>
   sync_table (SyncSchema ex_ops (ex_comm 4 2) ex_tables) =
     Some \<lparr>schema = ex_schema ''double'', columns = [[Some 3], [None]], num_rows = 1\<rparr> \<and>
   sync_status (SyncSchema ex_ops (ex_comm 4 3) ex_tables) = OK \<and>
   sync_table (SyncSchema ex_ops (ex_comm 4 3) ex_tables) =
     Some \<lparr>schema = ex_schema ''double'', columns = [[Some 4], [Some 40]], num_rows = 1\<rparr>"
proof -
  have b: "op_Build ex_ops = EmptyTableBuilder_Build"
    and p: "op_PromoteTableToSchema ex_ops = PromoteTableToSchema ex_upcast"
    by (simp_all add: ex_ops_def)
  have ll: "lossless ex_upcast"
    by (simp add: lossless_def ex_upcast_def split: if_splits)
  have n1: "1 < worker_num (ex_comm 4 1)" and n2: "1 < worker_num (ex_comm 4 2)"
    and n3: "1 < worker_num (ex_comm 4 3)"
    by (simp_all add: ex_comm_def)
  have t1: "ex_tables ! worker_id (ex_comm 4 1) = None"
    and t2: "ex_tables ! worker_id (ex_comm 4 2) =
               Some \<lparr>schema = ex_schema ''null'', columns = [[Some 3], [None]], num_rows = 1\<rparr>"
    and t3: "ex_tables ! worker_id (ex_comm 4 3) =
               Some \<lparr>schema = ex_schema_int32, columns = [[Some 4], [Some 40]], num_rows = 1\<rparr>"
    by (simp_all add: ex_comm_def ex_tables_def)
  have l: "length (sfields (ex_schema ''double'')) = 2" by (simp add: ex_schema_def)
  from SyncSchema_reconciles[OF b p ll n1 ex_tables_final_schema ex_ops_roundtrip] t1
  have 1: "SyncSchema ex_ops (ex_comm 4 1) ex_tables =
     \<lparr>sync_status = OK,
      sync_table = Some \<lparr>schema = ex_schema ''double'', columns = [[], []], num_rows = 0\<rparr>,
      sync_calls = [MPI_Gather, MPI_Gatherv, MPI_Bcast, MPI_Bcast]\<rparr>"
    by (simp add: l numeral_2_eq_2)
  from SyncSchema_reconciles[OF b p ll n2 ex_tables_final_schema ex_ops_roundtrip] t2
  have "case PromoteTableToSchema ex_upcast
              \<lparr>schema = ex_schema ''null'', columns = [[Some 3], [None]], num_rows = 1\<rparr>
              (ex_schema ''double'') of
          Inl msg \<Rightarrow> sync_status (SyncSchema ex_ops (ex_comm 4 2) ex_tables) = Aborted
        | Inr t' \<Rightarrow>
            sync_status (SyncSchema ex_ops (ex_comm 4 2) ex_tables) = OK \<and>
            sync_table (SyncSchema ex_ops (ex_comm 4 2) ex_tables) = Some t' \<and>
            promoted ex_upcast \<lparr>schema = ex_schema ''null'', columns = [[Some 3], [None]], num_rows = 1\<rparr>
              (ex_schema ''double'') t'"
    by blast
  then have 2: "sync_status (SyncSchema ex_ops (ex_comm 4 2) ex_tables) = OK \<and>
   sync_table (SyncSchema ex_ops (ex_comm 4 2) ex_tables) =
     Some \<lparr>schema = ex_schema ''double'', columns = [[Some 3], [None]], num_rows = 1\<rparr>"
    unfolding ex_promotion by simp
  from SyncSchema_reconciles[OF b p ll n3 ex_tables_final_schema ex_ops_roundtrip] t3
  have "case PromoteTableToSchema ex_upcast
              \<lparr>schema = ex_schema_int32, columns = [[Some 4], [Some 40]], num_rows = 1\<rparr>
              (ex_schema ''double'') of
          Inl msg \<Rightarrow> sync_status (SyncSchema ex_ops (ex_comm 4 3) ex_tables) = Aborted
        | Inr t' \<Rightarrow>
            sync_status (SyncSchema ex_ops (ex_comm 4 3) ex_tables) = OK \<and>
            sync_table (SyncSchema ex_ops (ex_comm 4 3) ex_tables) = Some t' \<and>
            promoted ex_upcast \<lparr>schema = ex_schema_int32, columns = [[Some 4], [Some 40]], num_rows = 1\<rparr>
              (ex_schema ''double'') t'"
    by blast
  then have 3: "sync_status (SyncSchema ex_ops (ex_comm 4 3) ex_tables) = OK \<and>
   sync_table (SyncSchema ex_ops (ex_comm 4 3) ex_tables) =
     Some \<lparr>schema = ex_schema ''double'', columns = [[Some 4], [Some 40]], num_rows = 1\<rparr>"
    unfolding ex_promotion_int32 by simp
  from 1 2 3 show ?thesis by simp
qed

section \<open>Properties of the re-indexing\<close>

lemma place_tables_spec:
  assumes "\<forall>t \<in> set ts. \<exists>i. label_index_of t = Some (int i) \<and> i < length acc"
    and "distinct (map label_index_of ts)"
  shows "\<exists>out. place_tables ts acc = Some out \<and> length out = length acc \<and>
           (\<forall>t \<in> set ts. \<forall>i. label_index_of t = Some (int i) \<longrightarrow> out ! i = Some t) \<and>
           (\<forall>i < length acc. (\<forall>t \<in> set ts. label_index_of t \<noteq> Some (int i)) \<longrightarrow> out ! i = acc ! i)"
  using assms
proof (induction ts arbitrary: acc)
  case Nil
  then show ?case by simp
next
  case (Cons t ts)
  from Cons.prems(1) obtain k where k: "label_index_of t = Some (int k)" "k < length acc"
    by auto
  let ?acc = "acc[k := Some t]"
  have p1: "\<forall>t \<in> set ts. \<exists>i. label_index_of t = Some (int i) \<and> i < length ?acc"
    using Cons.prems(1) by simp
  have p2: "distinct (map label_index_of ts)" using Cons.prems(2) by simp
  from Cons.IH[OF p1 p2] obtain out where out: "place_tables ts ?acc = Some out"
    "length out = length ?acc"
    "\<forall>t \<in> set ts. \<forall>i. label_index_of t = Some (int i) \<longrightarrow> out ! i = Some t"
    "\<forall>i < length ?acc. (\<forall>t \<in> set ts. label_index_of t \<noteq> Some (int i)) \<longrightarrow> out ! i = ?acc ! i"
    by blast
  have step: "place_tables (t # ts) acc = Some out" using k out(1) by simp
  have fresh: "\<forall>u \<in> set ts. label_index_of u \<noteq> Some (int k)"
    using Cons.prems(2) k(1) by (metis distinct.simps(2) image_eqI list.simps(9) set_map)
  have atk: "out ! k = Some t" using out(4) fresh k(2) by simp
  have a: "\<forall>u \<in> set (t # ts). \<forall>i. label_index_of u = Some (int i) \<longrightarrow> out ! i = Some u"
    using out(3) atk k(1) by auto
  have b: "\<forall>i < length acc. (\<forall>u \<in> set (t # ts). label_index_of u \<noteq> Some (int i)) \<longrightarrow> out ! i = acc ! i"
  proof (intro allI impI)
    fix i assume i: "i < length acc" and n: "\<forall>u \<in> set (t # ts). label_index_of u \<noteq> Some (int i)"
    then have "i \<noteq> k" using k(1) by auto
    moreover have "out ! i = ?acc ! i" using out(4) i n by simp
    ultimately show "out ! i = acc ! i" by simp
  qed
  show ?case using step out(2) a b by simp
qed

lemma rearrange_tables_spec:
  assumes "\<forall>t \<in> set ts. \<exists>i. label_index_of t = Some (int i) \<and> i < length ts"
    and "distinct (map label_index_of ts)"
  shows "\<exists>out. rearrange_tables ts = Some out \<and> length out = length ts \<and>
           (\<forall>t \<in> set ts. \<forall>i. label_index_of t = Some (int i) \<longrightarrow> out ! i = Some t) \<and>
           (\<forall>i < length ts. (\<forall>t \<in> set ts. label_index_of t \<noteq> Some (int i)) \<longrightarrow> out ! i = None)"
proof -
  have 1: "\<forall>t \<in> set ts. \<exists>i. label_index_of t = Some (int i) \<and> i < length (replicate (length ts) (None :: ('a, 'b) Table option))"
    using assms(1) by simp
  from place_tables_spec[OF 1 assms(2)] show ?thesis
    unfolding rearrange_tables_def by simp
qed

lemma rearrange_tables_perm:
  assumes v: "\<forall>t \<in> set ts. \<exists>i. label_index_of t = Some (int i) \<and> i < length ts"
    and d: "distinct (map label_index_of ts)"
    and p: "mset ts' = mset ts"
  shows "rearrange_tables ts' = rearrange_tables ts"
proof -
  have s: "set ts' = set ts" using p by (rule mset_eq_setD)
  have l: "length ts' = length ts" using p by (rule mset_eq_length)
  have "mset (map label_index_of ts') = mset (map label_index_of ts)" using p by simp
  then have d': "distinct (map label_index_of ts')" using d by (metis mset_eq_imp_distinct_iff)
  have v': "\<forall>t \<in> set ts'. \<exists>i. label_index_of t = Some (int i) \<and> i < length ts'"
    using v s l by simp
  from rearrange_tables_spec[OF v d] obtain out where out: "rearrange_tables ts = Some out"
    "length out = length ts"
    "\<forall>t \<in> set ts. \<forall>i. label_index_of t = Some (int i) \<longrightarrow> out ! i = Some t"
    "\<forall>i < length ts. (\<forall>t \<in> set ts. label_index_of t \<noteq> Some (int i)) \<longrightarrow> out ! i = None"
    by blast
  from rearrange_tables_spec[OF v' d'] obtain out' where out': "rearrange_tables ts' = Some out'"
    "length out' = length ts'"
    "\<forall>t \<in> set ts'. \<forall>i. label_index_of t = Some (int i) \<longrightarrow> out' ! i = Some t"
    "\<forall>i < length ts'. (\<forall>t \<in> set ts'. label_index_of t \<noteq> Some (int i)) \<longrightarrow> out' ! i = None"
    by blast
  have "out' = out"
  proof (rule nth_equalityI)
    show "length out' = length out" using out(2) out'(2) l by simp
  next
    fix i assume "i < length out'"
    then have i: "i < length ts" using out'(2) l by simp
    show "out' ! i = out ! i"
    proof (cases "\<exists>t \<in> set ts. label_index_of t = Some (int i)")
      case True
      then obtain t where t: "t \<in> set ts" "label_index_of t = Some (int i)" by blast
      have "out ! i = Some t" using out(3) t by blast
      moreover have "out' ! i = Some t" using out'(3) t s by blast
      ultimately show ?thesis by simp
    next
      case False
      then have "out ! i = None" using out(4) i by blast
      moreover have "out' ! i = None" using out'(4) i l s False by auto
      ultimately show ?thesis by simp
    qed
  qed
  then show ?thesis using out(1) out'(1) by simp
qed

lemma of_char_digit_char: "d < 10 \<Longrightarrow> of_char (digit_char d) = 48 + d"
  by (simp add: digit_char_def)

lemma is_digit_digit_char: "d < 10 \<Longrightarrow> is_digit (digit_char d)"
  by (simp add: is_digit_def less_eq_char_def of_char_digit_char)

lemma digit_value_digit_char: "d < 10 \<Longrightarrow> digit_value (digit_char d) = d"
  by (simp add: digit_value_def of_char_digit_char)

lemma is_digit_plain:
  assumes "is_digit c"
  shows "\<not> is_space c" and "c \<noteq> CHR ''-''" and "c \<noteq> CHR ''+''"
proof -
  from assms have r: "48 \<le> (of_char c :: nat)" by (simp add: is_digit_def less_eq_char_def)
  show "\<not> is_space c" using r by (auto simp: is_space_def)
  show "c \<noteq> CHR ''-''" using r by auto
  show "c \<noteq> CHR ''+''" using r by auto
qed

lemma to_string_digits: "c \<in> set (to_string n) \<Longrightarrow> is_digit c"
proof (induction n arbitrary: c rule: to_string.induct)
  case (1 n)
  show ?case
  proof (cases "n < 10")
    case True
    then show ?thesis using "1.prems" by (subst (asm) to_string.simps) (simp add: is_digit_digit_char)
  next
    case False
    have m: "n mod 10 < 10" by simp
    from "1.prems" have "c \<in> set (to_string (n div 10)) \<or> c = digit_char (n mod 10)"
      by (subst (asm) to_string.simps) (auto simp add: False)
    then show ?thesis using "1.IH"[OF False] is_digit_digit_char[OF m] by auto
  qed
qed

lemma to_string_nonempty: "to_string n \<noteq> []"
  by (subst to_string.simps) simp

lemma decimal_value_snoc: "decimal_value (ds @ [c]) = 10 * decimal_value ds + digit_value c"
  by (simp add: decimal_value_def)

lemma decimal_value_to_string: "decimal_value (to_string n) = n"
proof (induction n rule: to_string.induct)
  case (1 n)
  show ?case
  proof (cases "n < 10")
    case True
    then show ?thesis
      by (subst to_string.simps) (simp add: decimal_value_def digit_value_digit_char)
  next
    case False
    have m: "n mod 10 < 10" by simp
    have "decimal_value (to_string n) =
            10 * decimal_value (to_string (n div 10)) + digit_value (digit_char (n mod 10))"
      by (subst to_string.simps) (simp add: False decimal_value_snoc)
    also have "\<dots> = 10 * (n div 10) + n mod 10"
      using "1.IH"[OF False] digit_value_digit_char[OF m] by simp
    finally show ?thesis by simp
  qed
qed

lemma stoi_to_string:
  assumes "n < 2 ^ 31"
  shows "stoi (to_string n) = Some (int n)"
proof -
  let ?s = "to_string n"
  have ne: "?s \<noteq> []" by (rule to_string_nonempty)
  have dig: "\<forall>c \<in> set ?s. is_digit c" using to_string_digits by blast
  have h: "is_digit (hd ?s)" using ne dig by simp
  have 1: "dropWhile is_space ?s = ?s"
    using ne is_digit_plain(1)[OF h] by (cases ?s) simp_all
  have 2: "hd ?s \<noteq> CHR ''-''" "hd ?s \<noteq> CHR ''+''"
    using is_digit_plain(2,3)[OF h] by simp_all
  have 3: "takeWhile is_digit ?s = ?s" using dig by (simp add: takeWhile_eq_all_conv)
  have 4: "int n \<le> 2 ^ 31 - 1" using assms by simp
  show ?thesis
    unfolding stoi_def Let_def 1
    using ne 2 4 by (simp add: 3 decimal_value_to_string)
qed

lemma FindKey_map_of:
  assumes "map_of meta key = Some v"
  shows "0 \<le> FindKey meta key \<and> nat (FindKey meta key) < length meta \<and>
         snd (meta ! nat (FindKey meta key)) = v"
  using assms
proof (induction meta)
  case Nil
  then show ?case by simp
next
  case (Cons kv meta)
  obtain k w where kv: "kv = (k, w)" by (cases kv)
  show ?case
  proof (cases "k = key")
    case True
    then show ?thesis using Cons.prems kv by simp
  next
    case False
    then have "map_of meta key = Some v" using Cons.prems kv by simp
    from Cons.IH[OF this] have IH: "0 \<le> FindKey meta key" "nat (FindKey meta key) < length meta"
      "snd (meta ! nat (FindKey meta key)) = v" by simp_all
    have n: "FindKey meta key \<noteq> - 1" using IH(1) by simp
    have "FindKey (kv # meta) key = FindKey meta key + 1" using False kv n by (simp add: Let_def)
    moreover have "nat (FindKey meta key + 1) = Suc (nat (FindKey meta key))" using IH(1) by simp
    ultimately show ?thesis using IH by simp
  qed
qed

lemma label_index_of_value:
  assumes "label_index_value t = Some (to_string i)" and "i < 2 ^ 31"
  shows "label_index_of t = Some (int i)"
proof -
  from assms(1) obtain meta where m: "metadata (schema t) = Some meta"
    and v: "map_of meta ''label_index'' = Some (to_string i)"
    unfolding label_index_value_def by (auto split: option.splits)
  from FindKey_map_of[OF v] have f: "0 \<le> FindKey meta ''label_index''"
    "snd (meta ! nat (FindKey meta ''label_index'')) = to_string i" by simp_all
  have n: "FindKey meta ''label_index'' \<noteq> - 1" using f(1) by simp
  show ?thesis
    unfolding label_index_of_def m Let_def using n f(2) stoi_to_string[OF assms(2)] by simp
qed

lemma to_string_inj: "to_string i = to_string j \<Longrightarrow> i = j"
  by (metis decimal_value_to_string)

lemma ex_value: "label_index_value (ex_labelled s v) = Some s"
  by (simp add: label_index_value_def ex_labelled_def ex_meta_def)

lemma ex_edge_value: "label_index_value (ex_edge_labelled s v) = Some s"
  by (simp add: label_index_value_def ex_edge_labelled_def ex_edge_meta_def)

lemma to_string_small:
  "to_string 0 = ''0''" "to_string 1 = ''1''" "to_string (Suc 0) = ''1''" "to_string 2 = ''2''"
  by code_simp+

text \<open>
  Claim C6. The received tables are re-indexed by label. When the metadata of every table
  give the key \<^verbatim>\<open>label_index\<close> the decimal string of an index below the number of
  tables, no two tables have the same value, and the indices fit the \<^verbatim>\<open>int\<close> that
  \<^verbatim>\<open>std::stoi\<close> returns, the loop ends normally, entry \<open>i\<close> of the rearranged list is the
  table whose metadata value is the string of \<open>i\<close>, and the tables give the same list in
  whatever order they arrive. The statement reads the metadata with \<open>map_of\<close> and writes
  the index with \<open>to_string\<close>, not with the search and the parser of the loader.
\<close>

theorem rearrange_tables_by_label:
  assumes "\<forall>t \<in> set local_tables. \<exists>i < length local_tables. label_index_value t = Some (to_string i)"
    and "distinct (map label_index_value local_tables)"
    and "length local_tables \<le> 2 ^ 31"
  shows "\<exists>rearranged. rearrange_tables local_tables = Some rearranged \<and>
           length rearranged = length local_tables \<and>
           (\<forall>t \<in> set local_tables. \<forall>i. label_index_value t = Some (to_string i) \<longrightarrow>
                rearranged ! i = Some t) \<and>
           (\<forall>arrived. mset arrived = mset local_tables \<longrightarrow>
                rearrange_tables arrived = Some rearranged)"
proof -
  let ?n = "length local_tables"
  have lab: "label_index_of t = Some (int i)"
    if "t \<in> set local_tables" "label_index_value t = Some (to_string i)" for t i
  proof -
    from assms(1) that(1) obtain j where j: "j < ?n" "label_index_value t = Some (to_string j)"
      by blast
    then have "i = j" using that(2) to_string_inj by simp
    then have "i < 2 ^ 31" using j(1) assms(3) by simp
    then show ?thesis using that(2) by (rule label_index_of_value[rotated])
  qed
  have v: "\<forall>t \<in> set local_tables. \<exists>i. label_index_of t = Some (int i) \<and> i < ?n"
  proof
    fix t assume t: "t \<in> set local_tables"
    with assms(1) obtain i where i: "i < ?n" "label_index_value t = Some (to_string i)" by blast
    then show "\<exists>i. label_index_of t = Some (int i) \<and> i < ?n" using lab[OF t i(2)] by blast
  qed
  have d: "distinct (map label_index_of local_tables)"
  proof -
    from assms(2) have dt: "distinct local_tables"
      and inj: "inj_on label_index_value (set local_tables)"
      by (simp_all add: distinct_map)
    have "inj_on label_index_of (set local_tables)"
    proof (rule inj_onI)
      fix t u assume t: "t \<in> set local_tables" and u: "u \<in> set local_tables"
        and e: "label_index_of t = label_index_of u"
      from assms(1) t obtain i where i: "label_index_value t = Some (to_string i)" by blast
      from assms(1) u obtain j where j: "label_index_value u = Some (to_string j)" by blast
      have "int i = int j" using lab[OF t i] lab[OF u j] e by simp
      then have "label_index_value t = label_index_value u" using i j by simp
      then show "t = u" using inj t u by (simp add: inj_on_def)
    qed
    with dt show ?thesis by (simp add: distinct_map)
  qed
  from rearrange_tables_spec[OF v d] obtain out where out: "rearrange_tables local_tables = Some out"
    "length out = ?n"
    "\<forall>t \<in> set local_tables. \<forall>i. label_index_of t = Some (int i) \<longrightarrow> out ! i = Some t"
    by blast
  have 3: "\<forall>t \<in> set local_tables. \<forall>i. label_index_value t = Some (to_string i) \<longrightarrow> out ! i = Some t"
    using out(3) lab by blast
  have 4: "\<forall>arrived. mset arrived = mset local_tables \<longrightarrow> rearrange_tables arrived = Some out"
    using rearrange_tables_perm[OF v d] out(1) by simp
  from out(1,2) 3 4 show ?thesis by blast
qed

theorem rearrange_tables_by_label_witness:
  "rearrange_tables [ex_labelled ''2'' 5, ex_labelled ''0'' 6, ex_labelled ''1'' 7] =
     Some [Some (ex_labelled ''0'' 6), Some (ex_labelled ''1'' 7), Some (ex_labelled ''2'' 5)] \<and>
   rearrange_tables [ex_labelled ''1'' 7, ex_labelled ''2'' 5, ex_labelled ''0'' 6] =
     Some [Some (ex_labelled ''0'' 6), Some (ex_labelled ''1'' 7), Some (ex_labelled ''2'' 5)] \<and>
   rearrange_tables [ex_edge_labelled ''1'' 8, ex_edge_labelled ''0'' 9] =
     Some [Some (ex_edge_labelled ''0'' 9), Some (ex_edge_labelled ''1'' 8)]"
proof -
  let ?ts = "[ex_labelled ''2'' 5, ex_labelled ''0'' 6, ex_labelled ''1'' 7]"
  let ?es = "[ex_edge_labelled ''1'' 8, ex_edge_labelled ''0'' 9]"
  have 1: "\<forall>t \<in> set ?ts. \<exists>i < length ?ts. label_index_value t = Some (to_string i)"
  proof -
    have "(2::nat) < length ?ts \<and> label_index_value (ex_labelled ''2'' 5) = Some (to_string 2)"
      "(0::nat) < length ?ts \<and> label_index_value (ex_labelled ''0'' 6) = Some (to_string 0)"
      "(1::nat) < length ?ts \<and> label_index_value (ex_labelled ''1'' 7) = Some (to_string 1)"
      by (simp_all add: ex_value to_string_small)
    then show ?thesis by (metis insert_iff list.simps(15) empty_iff empty_set)
  qed
  have 2: "distinct (map label_index_value ?ts)" by (simp add: ex_value)
  have 3: "length ?ts \<le> 2 ^ 31" by simp
  from rearrange_tables_by_label[OF 1 2 3] obtain out where
    out: "rearrange_tables ?ts = Some out" "length out = length ?ts"
    "\<forall>t \<in> set ?ts. \<forall>i. label_index_value t = Some (to_string i) \<longrightarrow> out ! i = Some t"
    "\<forall>arrived. mset arrived = mset ?ts \<longrightarrow> rearrange_tables arrived = Some out"
    by (elim exE conjE) (rule that, assumption+)
  have "length out = 3" using out(2) by simp
  then obtain a b c where abc: "out = [a, b, c]"
    by (auto simp: numeral_3_eq_3 length_Suc_conv)
  have "out ! 0 = Some (ex_labelled ''0'' 6)"
    using out(3)[rule_format, of "ex_labelled ''0'' 6" 0] by (simp add: ex_value to_string_small)
  moreover have "out ! 1 = Some (ex_labelled ''1'' 7)"
    using out(3)[rule_format, of "ex_labelled ''1'' 7" 1] by (simp add: ex_value to_string_small)
  moreover have "out ! 2 = Some (ex_labelled ''2'' 5)"
    using out(3)[rule_format, of "ex_labelled ''2'' 5" 2] by (simp add: ex_value to_string_small)
  ultimately have o: "out = [Some (ex_labelled ''0'' 6), Some (ex_labelled ''1'' 7), Some (ex_labelled ''2'' 5)]"
    unfolding abc by simp
  have "mset [ex_labelled ''1'' 7, ex_labelled ''2'' 5, ex_labelled ''0'' 6] = mset ?ts"
    by (simp add: add_mset_commute)
  then have p: "rearrange_tables [ex_labelled ''1'' 7, ex_labelled ''2'' 5, ex_labelled ''0'' 6] = Some out"
    using out(4) by blast
  have e1: "\<forall>t \<in> set ?es. \<exists>i < length ?es. label_index_value t = Some (to_string i)"
  proof -
    have "(1::nat) < length ?es \<and> label_index_value (ex_edge_labelled ''1'' 8) = Some (to_string 1)"
      "(0::nat) < length ?es \<and> label_index_value (ex_edge_labelled ''0'' 9) = Some (to_string 0)"
      by (simp_all add: ex_edge_value to_string_small)
    then show ?thesis by (metis insert_iff list.simps(15) empty_iff empty_set)
  qed
  have e2: "distinct (map label_index_value ?es)" by (simp add: ex_edge_value)
  have e3: "length ?es \<le> 2 ^ 31" by simp
  from rearrange_tables_by_label[OF e1 e2 e3] obtain eout where
    eout: "rearrange_tables ?es = Some eout" "length eout = length ?es"
    "\<forall>t \<in> set ?es. \<forall>i. label_index_value t = Some (to_string i) \<longrightarrow> eout ! i = Some t"
    by (elim exE conjE) (rule that, assumption+)
  have "length eout = 2" using eout(2) by simp
  then obtain x y where xy: "eout = [x, y]"
    by (auto simp: numeral_2_eq_2 length_Suc_conv)
  have "eout ! 0 = Some (ex_edge_labelled ''0'' 9)"
    using eout(3)[rule_format, of "ex_edge_labelled ''0'' 9" 0] by (simp add: ex_edge_value to_string_small)
  moreover have "eout ! 1 = Some (ex_edge_labelled ''1'' 8)"
    using eout(3)[rule_format, of "ex_edge_labelled ''1'' 8" 1] by (simp add: ex_edge_value to_string_small)
  ultimately have eo: "eout = [Some (ex_edge_labelled ''0'' 9), Some (ex_edge_labelled ''1'' 8)]"
    unfolding xy by simp
  show ?thesis using out(1) p eout(1) unfolding o eo by simp
qed

section \<open>Properties of constructFragmentGroup\<close>

lemma add_fragments_entries:
  assumes "\<forall>j < fnum c. FragToWorker c j < length oids \<and> FragToWorker c j < length iids"
    and "i \<le> fnum c"
  shows "add_fragments c oids iids i b =
           Some (b\<lparr>fragment_objects := fragment_objects b @
                    map (\<lambda>j. (j, oids ! FragToWorker c j, iids ! FragToWorker c j)) [i..<fnum c]\<rparr>)"
  using assms
proof (induction c oids iids i b rule: add_fragments.induct)
  case (1 c oids iids i b)
  show ?case
  proof (cases "i < fnum c")
    case True
    then have r: "FragToWorker c i < length oids \<and> FragToWorker c i < length iids"
      using "1.prems"(1) by simp
    have le: "i + 1 \<le> fnum c" using True by simp
    have IH: "add_fragments c oids iids (i + 1)
                (AddFragmentObject i (oids ! FragToWorker c i) (iids ! FragToWorker c i) b) =
              Some ((AddFragmentObject i (oids ! FragToWorker c i) (iids ! FragToWorker c i) b)
                \<lparr>fragment_objects := fragment_objects
                    (AddFragmentObject i (oids ! FragToWorker c i) (iids ! FragToWorker c i) b) @
                    map (\<lambda>j. (j, oids ! FragToWorker c j, iids ! FragToWorker c j)) [i + 1..<fnum c]\<rparr>)"
      using "1.IH"[OF True r "1.prems"(1) le] .
    have u: "[i..<fnum c] = i # [i + 1..<fnum c]" using True by (simp add: upt_conv_Cons)
    show ?thesis
      apply (subst add_fragments.simps)
      apply (simp only: True r if_True simp_thms IH)
      apply (simp add: u AddFragmentObject_def)
      done
  next
    case False
    then have "i = fnum c" using "1.prems"(2) by simp
    then show ?thesis by (subst add_fragments.simps) simp
  qed
qed

lemma coordinator_group_ok:
  assumes "\<forall>i < fnum comm_spec. FragToWorker comm_spec i < length frag_ids \<and>
                                  FragToWorker comm_spec i < length instance_ids"
  shows "coordinator_group client comm_spec frag_ids instance_ids v e =
           (let grp = \<lparr>total_frag_num = fnum comm_spec, vertex_label_num = v, edge_label_num = e,
                       fragment_objects = group_entries comm_spec frag_ids instance_ids\<rparr>
            in case Persist client (Seal client grp) of
                 Some msg \<Rightarrow> \<lparr>group_status = GSError kVineyardError msg, group_object_id = None,
                              group_object = Some grp, group_calls = [MPI_Gather, MPI_Gather]\<rparr>
               | None \<Rightarrow> \<lparr>group_status = OK, group_object_id = Some (Seal client grp),
                           group_object = Some grp,
                           group_calls = [MPI_Gather, MPI_Gather, MPI_Bcast]\<rparr>)"
proof -
  have "add_fragments comm_spec frag_ids instance_ids 0
          \<lparr>total_frag_num = fnum comm_spec, vertex_label_num = v, edge_label_num = e,
           fragment_objects = []\<rparr> =
        Some \<lparr>total_frag_num = fnum comm_spec, vertex_label_num = v, edge_label_num = e,
              fragment_objects = group_entries comm_spec frag_ids instance_ids\<rparr>"
    using add_fragments_entries[OF assms, of 0] by (simp add: group_entries_def)
  then show ?thesis
    unfolding coordinator_group_def Let_def by (simp split: option.split)
qed

text \<open>
  Claim C7. When \<^verbatim>\<open>FragToWorker\<close> sends every fragment to a worker of the run and the
  group is persisted, the group has one entry for each fragment \<open>i\<close> below the number of
  fragments, entry \<open>i\<close> holds the object id and the instance id gathered from the worker
  \<open>FragToWorker comm_spec i\<close>, the coordinator seals this group, and every worker of the
  run returns the object id of the group.
\<close>

theorem constructFragmentGroup_entries:
  assumes "\<forall>i < fnum comm_spec. FragToWorker comm_spec i < length frag_ids \<and>
                                  FragToWorker comm_spec i < length instance_ids"
    and "Persist client (Seal client
           \<lparr>total_frag_num = fnum comm_spec, vertex_label_num = v_label_num,
            edge_label_num = e_label_num,
            fragment_objects = group_entries comm_spec frag_ids instance_ids\<rparr>) = None"
  shows "\<exists>grp. total_frag_num grp = fnum comm_spec \<and>
           length (fragment_objects grp) = fnum comm_spec \<and>
           (\<forall>i < fnum comm_spec. fragment_objects grp ! i =
               (i, frag_ids ! FragToWorker comm_spec i, instance_ids ! FragToWorker comm_spec i)) \<and>
           (\<forall>worker. fnum worker = fnum comm_spec \<and>
                     FragToWorker worker = FragToWorker comm_spec \<longrightarrow>
                (worker_id worker = 0 \<longrightarrow>
                   group_object (constructFragmentGroup client worker
                     frag_ids instance_ids v_label_num e_label_num) = Some grp) \<and>
                group_status (constructFragmentGroup client worker
                    frag_ids instance_ids v_label_num e_label_num) = OK \<and>
                group_object_id (constructFragmentGroup client worker
                    frag_ids instance_ids v_label_num e_label_num) = Some (Seal client grp))"
proof -
  let ?grp = "\<lparr>total_frag_num = fnum comm_spec, vertex_label_num = v_label_num,
            edge_label_num = e_label_num,
            fragment_objects = group_entries comm_spec frag_ids instance_ids\<rparr>"
  have c: "coordinator_group client w frag_ids instance_ids v_label_num e_label_num =
           \<lparr>group_status = OK, group_object_id = Some (Seal client ?grp),
            group_object = Some ?grp, group_calls = [MPI_Gather, MPI_Gather, MPI_Bcast]\<rparr>"
    if w: "fnum w = fnum comm_spec" "FragToWorker w = FragToWorker comm_spec" for w
  proof -
    have a: "\<forall>i < fnum w. FragToWorker w i < length frag_ids \<and>
                            FragToWorker w i < length instance_ids"
      using assms(1) w by simp
    have g: "group_entries w frag_ids instance_ids = group_entries comm_spec frag_ids instance_ids"
      using w by (simp add: group_entries_def)
    show ?thesis
      unfolding coordinator_group_ok[OF a] Let_def g w(1) using assms(2) by simp
  qed
  have 2: "(worker_id w = 0 \<longrightarrow>
             group_object (constructFragmentGroup client w
                    frag_ids instance_ids v_label_num e_label_num) = Some ?grp) \<and>
           group_status (constructFragmentGroup client w
                    frag_ids instance_ids v_label_num e_label_num) = OK \<and>
           group_object_id (constructFragmentGroup client w
                    frag_ids instance_ids v_label_num e_label_num) = Some (Seal client ?grp)"
    if w: "fnum w = fnum comm_spec" "FragToWorker w = FragToWorker comm_spec" for w
    by (simp add: constructFragmentGroup_def Let_def c[OF w])
  have 3: "length (fragment_objects ?grp) = fnum comm_spec" by (simp add: group_entries_def)
  have 4: "\<forall>i < fnum comm_spec. fragment_objects ?grp ! i =
               (i, frag_ids ! FragToWorker comm_spec i, instance_ids ! FragToWorker comm_spec i)"
    by (simp add: group_entries_def)
  show ?thesis
    apply (rule exI[of _ ?grp])
    using 2 3 4 by simp
qed

theorem constructFragmentGroup_entries_witness:
  "group_object (constructFragmentGroup ex_client (ex_topology 0) [70, 71, 72] [5, 6, 7] 1 1) =
     Some \<lparr>total_frag_num = 3, vertex_label_num = 1, edge_label_num = 1,
           fragment_objects = [(0, 72, 7), (1, 70, 5), (2, 71, 6)]\<rparr> \<and>
   group_object_id (constructFragmentGroup ex_client (ex_topology 0) [70, 71, 72] [5, 6, 7] 1 1) = Some 1003 \<and>
   group_object_id (constructFragmentGroup ex_client (ex_topology 2) [70, 71, 72] [5, 6, 7] 1 1) = Some 1003"
proof -
  have 1: "\<forall>i < fnum (ex_topology 0). FragToWorker (ex_topology 0) i < length [70, 71, 72::nat] \<and>
             FragToWorker (ex_topology 0) i < length [5, 6, 7::nat]"
  proof -
    have m: "(i + 2) mod 3 < (3::nat)" for i by simp
    have l: "length [70, 71, 72::nat] = 3" "length [5, 6, 7::nat] = 3" by simp_all
    show ?thesis unfolding l ex_topology_def by (simp only: CommSpec.simps m simp_thms)
  qed
  have 2: "Persist ex_client (Seal ex_client
           \<lparr>total_frag_num = fnum (ex_topology 0), vertex_label_num = 1, edge_label_num = 1,
            fragment_objects = group_entries (ex_topology 0) [70, 71, 72] [5, 6, 7]\<rparr>) = None"
    by (simp add: ex_client_def)
  have w0: "fnum (ex_topology 0) = fnum (ex_topology 0) \<and>
            FragToWorker (ex_topology 0) = FragToWorker (ex_topology 0)"
    and w2: "fnum (ex_topology 2) = fnum (ex_topology 0) \<and>
             FragToWorker (ex_topology 2) = FragToWorker (ex_topology 0)"
    by (simp_all add: ex_topology_def)
  from constructFragmentGroup_entries[OF 1 2] obtain grp where
    n: "length (fragment_objects grp) = fnum (ex_topology 0)"
    and ids: "\<forall>worker. fnum worker = fnum (ex_topology 0) \<and>
                     FragToWorker worker = FragToWorker (ex_topology 0) \<longrightarrow>
                group_object_id (constructFragmentGroup ex_client worker
                    [70, 71, 72] [5, 6, 7] 1 1) = Some (Seal ex_client grp)"
    by blast
  have e: "group_object (constructFragmentGroup ex_client (ex_topology 0) [70, 71, 72] [5, 6, 7] 1 1) =
     Some \<lparr>total_frag_num = 3, vertex_label_num = 1, edge_label_num = 1,
           fragment_objects = [(0, 72, 7), (1, 70, 5), (2, 71, 6)]\<rparr>"
    by code_simp
  have s: "Seal ex_client grp = 1003" using n by (simp add: ex_client_def ex_topology_def)
  from ids[rule_format, OF w0] ids[rule_format, OF w2] show ?thesis
    unfolding s using e by simp
qed

section \<open>Properties of swapColumn\<close>

text \<open>
  Claim C10. With equal indices \<^verbatim>\<open>swapColumn\<close> returns the status OK and leaves the
  table behind the pointer of the caller as it was before the call, whatever the input
  table is.
\<close>

theorem swapColumn_equal_indices:
  assumes "lhs_index = rhs_index"
  shows "swapColumn in_table lhs_index rhs_index out = (Status_OK, out)"
  using assms by (simp add: swapColumn_def)

theorem swapColumn_equal_indices_witness:
  "swapColumn ex_table 1 1 None = (Status_OK, None) \<and>
   swapColumn ex_table 0 0 (Some (ex_labelled ''0'' 6)) = (Status_OK, Some (ex_labelled ''0'' 6))"
proof -
  have e: "(1::int) = 1" "(0::int) = 0" by simp_all
  show ?thesis
    using swapColumn_equal_indices[OF e(1), of ex_table None]
      swapColumn_equal_indices[OF e(2), of ex_table "Some (ex_labelled ''0'' 6)"]
    by simp
qed

section \<open>Properties of the partitioner and of the shuffle\<close>







lemma rows_of_label_mem:
  assumes "r \<in> set (rows_of_label local_tables l)"
    and "\<forall>tables \<in> set local_tables. length tables = label_num" and "l < label_num"
  shows "\<exists>tables \<in> set local_tables. \<exists>rows \<in> set tables. r \<in> set rows"
proof -
  from assms(1) obtain tables where t: "tables \<in> set local_tables" "r \<in> set (tables ! l)"
    unfolding rows_of_label_def by auto
  have "tables ! l \<in> set tables" using t(1) assms(2,3) by simp
  with t show ?thesis by blast
qed









end
